theory Spec2Isabelle
  imports Main "HOL-Library.AList"
begin

section \<open>Values, errors and the clock\<close>

text \<open>
  The values that \<open>json.loads\<close> returns and that \<open>json.dumps\<close> writes: what the
  store holds of a payload or a result, and the messages sent to a WebSocket.
  \<open>JNull\<close> is Python's \<open>None\<close>.
\<close>

datatype json =
    JNull
  | JBool bool
  | JNum int
  | JStr string
  | JArr "json list"
  | JObj "(string \<times> json) list"

text \<open>
  The exceptions that the modelled code can raise by itself. \<open>AttributeError a\<close> is
  the error of reading attribute \<open>a\<close> of \<open>None\<close> (\<open>self.redis.client.lpush\<close> when
  \<open>client\<close> is \<open>None\<close>); \<open>RuntimeError m\<close>, \<open>TypeError m\<close> and \<open>ValueError m\<close>
  carry their message.
\<close>

datatype error = RuntimeError string | AttributeError string | TypeError string | ValueError string

fun error_str :: "error \<Rightarrow> string" where
  "error_str (RuntimeError m) = m"
| "error_str (AttributeError a) =
     [CHR 0x27] @ ''NoneType'' @ [CHR 0x27] @ '' object has no attribute '' @ [CHR 0x27] @ a @ [CHR 0x27]"
| "error_str (TypeError m) = m"
| "error_str (ValueError m) = m"

text \<open>
  Payloads and handler results are arbitrary Python values (\<open>Dict[str, Any]\<close>,
  \<open>Any\<close>), and \<open>json.dumps\<close> does not accept all of them. A value is given by
  what \<open>json.dumps\<close> does with it: \<open>Json v\<close> is a value that it serialises, to the
  document \<open>v\<close>; \<open>Unserialisable e\<close> is a value on which it raises \<open>e\<close> (a
  \<open>TypeError\<close> for a \<open>datetime\<close>, a \<open>Decimal\<close>, a \<open>set\<close> or \<open>bytes\<close> anywhere in
  the value, a \<open>ValueError\<close> for a circular reference). \<open>Json JNull\<close> is \<open>None\<close>.
\<close>

datatype pyval = Json json | Unserialisable error

definition json_dumps :: "pyval \<Rightarrow> error + json" where
  "json_dumps v = (case v of Json d \<Rightarrow> Inr d | Unserialisable e \<Rightarrow> Inl e)"

text \<open>Decimal rendering of an integer, as \<open>str\<close> (inside an f-string) produces it.\<close>

definition digit :: "nat \<Rightarrow> char" where
  "digit d = ''0123456789'' ! d"

fun str_nat :: "nat \<Rightarrow> string" where
  "str_nat n =
     (if n < 10 then [digit n]
      else str_nat (n div 10) @ [digit (n mod 10)])"

declare str_nat.simps [simp del]

definition str_int :: "int \<Rightarrow> string" where
  "str_int i = (if i < 0 then ''-'' @ str_nat (nat (- i)) else str_nat (nat i))"

section \<open>The job document\<close>

text \<open>
  The dict built by \<open>add_job\<close>, with its fixed keys. \<open>status\<close> is a plain string in
  the source (\<open>update_job_status\<close> writes whatever string it is given). The key
  \<open>"result"\<close> is absent until \<open>update_job_status\<close> adds it: \<open>result = None\<close> is the
  absent key.

  The store holds \<open>json.dumps(job)\<close> and readers apply \<open>json.loads\<close>; the two are
  inverse on the dicts that \<open>json.dumps\<close> accepts, so the model keeps the serialised
  document as the record itself: its payload and its result are documents, not
  arbitrary values. A serialised dict is never the empty string and a loaded job
  dict is never empty, so the truthiness tests \<open>if job_data\<close> and \<open>if job\<close> are the
  tests for presence.
\<close>

record job =
  job_id :: string
  queue :: string
  data :: json
  status :: string
  created_at :: string
  updated_at :: string
  result :: "json option"

section \<open>redisManager.py\<close>

subsection \<open>The shared store behind the client\<close>

text \<open>
  The commands that change the store, in the order in which the client issued them.
\<close>

datatype redis_op =
    OpSet string job
  | OpDel string
  | OpExpire string int
  | OpLPush string string
  | OpRPop string
  | OpPublish string json
  | OpSubscribe "string list"

text \<open>
  A connected \<open>redis.Redis\<close> client is modelled by the state of the store it talks
  to: string keys, lists (head first; a missing list is the empty list), the
  time-to-live given to a key, the number of subscribers of each channel, and the
  history of commands.
\<close>

record redis_client =
  kv :: "string \<rightharpoonup> job"
  lists :: "string \<Rightarrow> string list"
  ttl :: "string \<rightharpoonup> int"
  subscribers :: "string \<Rightarrow> nat"
  oplog :: "redis_op list"

definition client_get :: "redis_client \<Rightarrow> string \<Rightarrow> job option" where
  "client_get c key = kv c key"

definition client_set :: "redis_client \<Rightarrow> string \<Rightarrow> job \<Rightarrow> int option \<Rightarrow> bool \<times> redis_client" where
  "client_set c key v ex =
     (True, c\<lparr>kv := (kv c)(key \<mapsto> v), ttl := (ttl c)(key := ex),
              oplog := oplog c @ [OpSet key v]\<rparr>)"

definition client_exists :: "redis_client \<Rightarrow> string \<Rightarrow> bool" where
  "client_exists c key = (kv c key \<noteq> None \<or> lists c key \<noteq> [])"

definition client_delete :: "redis_client \<Rightarrow> string \<Rightarrow> int \<times> redis_client" where
  "client_delete c key =
     (if client_exists c key then 1 else 0,
      c\<lparr>kv := (kv c)(key := None), lists := (lists c)(key := []),
        ttl := (ttl c)(key := None), oplog := oplog c @ [OpDel key]\<rparr>)"

definition client_expire :: "redis_client \<Rightarrow> string \<Rightarrow> int \<Rightarrow> bool \<times> redis_client" where
  "client_expire c key time =
     (if client_exists c key
      then (True, c\<lparr>ttl := (ttl c)(key \<mapsto> time), oplog := oplog c @ [OpExpire key time]\<rparr>)
      else (False, c\<lparr>oplog := oplog c @ [OpExpire key time]\<rparr>))"

definition client_publish :: "redis_client \<Rightarrow> string \<Rightarrow> json \<Rightarrow> int \<times> redis_client" where
  "client_publish c channel message =
     (int (subscribers c channel), c\<lparr>oplog := oplog c @ [OpPublish channel message]\<rparr>)"

definition client_subscribe :: "redis_client \<Rightarrow> string list \<Rightarrow> string list \<times> redis_client" where
  "client_subscribe c channels =
     (channels,
      c\<lparr>subscribers := (\<lambda>ch. subscribers c ch + count_list channels ch),
        oplog := oplog c @ [OpSubscribe channels]\<rparr>)"

text \<open>\<open>LPUSH\<close> puts the value at the head, \<open>RPOP\<close> takes it from the tail.\<close>

definition client_lpush :: "redis_client \<Rightarrow> string \<Rightarrow> string \<Rightarrow> int \<times> redis_client" where
  "client_lpush c key v =
     (int (length (lists c key)) + 1,
      c\<lparr>lists := (lists c)(key := v # lists c key), oplog := oplog c @ [OpLPush key v]\<rparr>)"

definition client_rpop :: "redis_client \<Rightarrow> string \<Rightarrow> string option \<times> redis_client" where
  "client_rpop c key =
     (case lists c key of
        [] \<Rightarrow> (None, c\<lparr>oplog := oplog c @ [OpRPop key]\<rparr>)
      | x # xs \<Rightarrow>
          (Some (last (x # xs)),
           c\<lparr>lists := (lists c)(key := butlast (x # xs)), oplog := oplog c @ [OpRPop key]\<rparr>))"

subsection \<open>RedisManager\<close>

text \<open>
  \<open>client = None\<close> until \<open>connect\<close> has run. Every method returns either an
  exception (\<open>Inl\<close>) or its value together with the manager afterwards.
\<close>

record RedisManager =
  client :: "redis_client option"

definition RedisManager_init :: RedisManager where
  "RedisManager_init = \<lparr>client = None\<rparr>"

definition with_client :: "RedisManager \<Rightarrow> 'a \<times> redis_client \<Rightarrow> error + ('a \<times> RedisManager)" where
  "with_client rm r = Inr (fst r, rm\<lparr>client := Some (snd r)\<rparr>)"

definition RedisManager_get :: "RedisManager \<Rightarrow> string \<Rightarrow> error + (job option \<times> RedisManager)" where
  "RedisManager_get rm key =
     (case client rm of
        None \<Rightarrow> Inr (None, rm)
      | Some c \<Rightarrow> Inr (client_get c key, rm))"

definition RedisManager_set ::
  "RedisManager \<Rightarrow> string \<Rightarrow> job \<Rightarrow> int option \<Rightarrow> error + (bool \<times> RedisManager)" where
  "RedisManager_set rm key v expire =
     (case client rm of
        None \<Rightarrow> Inr (False, rm)
      | Some c \<Rightarrow> with_client rm (client_set c key v expire))"

definition RedisManager_delete :: "RedisManager \<Rightarrow> string \<Rightarrow> error + (int \<times> RedisManager)" where
  "RedisManager_delete rm key =
     (case client rm of
        None \<Rightarrow> Inr (0, rm)
      | Some c \<Rightarrow> with_client rm (client_delete c key))"

definition RedisManager_exists :: "RedisManager \<Rightarrow> string \<Rightarrow> error + (bool \<times> RedisManager)" where
  "RedisManager_exists rm key =
     (case client rm of
        None \<Rightarrow> Inr (False, rm)
      | Some c \<Rightarrow> Inr (client_exists c key, rm))"

definition RedisManager_expire :: "RedisManager \<Rightarrow> string \<Rightarrow> int \<Rightarrow> error + (bool \<times> RedisManager)" where
  "RedisManager_expire rm key time =
     (case client rm of
        None \<Rightarrow> Inr (False, rm)
      | Some c \<Rightarrow> with_client rm (client_expire c key time))"

definition RedisManager_publish :: "RedisManager \<Rightarrow> string \<Rightarrow> json \<Rightarrow> error + (int \<times> RedisManager)" where
  "RedisManager_publish rm channel message =
     (case client rm of
        None \<Rightarrow> Inr (0, rm)
      | Some c \<Rightarrow> with_client rm (client_publish c channel message))"

text \<open>The returned pubsub object is modelled by the channels it listens to.\<close>

definition RedisManager_subscribe ::
  "RedisManager \<Rightarrow> string list \<Rightarrow> error + (string list option \<times> RedisManager)" where
  "RedisManager_subscribe rm channels =
     (case client rm of
        None \<Rightarrow> Inr (None, rm)
      | Some c \<Rightarrow>
          (let (ps, c') = client_subscribe c channels
           in Inr (Some ps, rm\<lparr>client := Some c'\<rparr>)))"

text \<open>
  \<open>pipeline\<close> is the one method that raises on a missing client. On a connected
  manager it yields the client's pipeline; the model returns the client it is opened on.
\<close>

definition RedisManager_pipeline :: "RedisManager \<Rightarrow> error + (redis_client \<times> RedisManager)" where
  "RedisManager_pipeline rm =
     (case client rm of
        None \<Rightarrow> Inl (RuntimeError ''Redis client not connected'')
      | Some c \<Rightarrow> Inr (c, rm))"

definition RedisManager_health_check :: "RedisManager \<Rightarrow> error + (bool \<times> RedisManager)" where
  "RedisManager_health_check rm =
     (case client rm of
        None \<Rightarrow> Inr (False, rm)
      | Some c \<Rightarrow> Inr (True, rm))"

section \<open>queueManager.py\<close>

text \<open>
  A handler takes the job's payload, as \<open>json.loads\<close> gave it; \<open>Inr v\<close> is its
  return value, any Python value, and \<open>Inl d\<close> is an \<open>Exception\<close> \<open>e\<close> raised by it
  with \<open>str(e) = d\<close>. The awaits of the source are taken one operation at a time:
  no other task runs between two statements of one call.
\<close>

type_synonym handler = "json \<Rightarrow> string + pyval"

text \<open>
  \<open>jobs\<close> is the process-local mirror, \<open>handlers\<close> the registration table.
  \<open>invoked\<close> records every handler call made by the worker (queue name and
  payload), in order.
\<close>

record QueueManager =
  redis :: RedisManager
  jobs :: "string \<rightharpoonup> job"
  handlers :: "string \<rightharpoonup> handler"
  invoked :: "(string \<times> json) list"

definition QueueManager_init :: "RedisManager \<Rightarrow> QueueManager" where
  "QueueManager_init rm = \<lparr>redis = rm, jobs = Map.empty, handlers = Map.empty, invoked = []\<rparr>"

text \<open>\<open>if not job_id\<close>: both \<open>None\<close> and the empty string take the synthesised id.\<close>

definition resolve_id :: "int \<Rightarrow> string \<Rightarrow> string option \<Rightarrow> string" where
  "resolve_id now_ms queue_name job_id_arg =
     (case job_id_arg of
        None \<Rightarrow> queue_name @ ''_'' @ str_int now_ms
      | Some s \<Rightarrow> if s = [] then queue_name @ ''_'' @ str_int now_ms else s)"

text \<open>
  \<open>add_job\<close>. The three clock readings of the call are arguments: \<open>now_ms\<close> is
  \<open>int(datetime.now().timestamp() * 1000)\<close>, \<open>t_created\<close> and \<open>t_updated\<close> are the
  two \<open>isoformat()\<close> strings. \<open>json.dumps(job)\<close> is evaluated before \<open>redis.set\<close> is
  called; the other values of the dict are strings, so it raises exactly when it
  raises on the payload, and then nothing has been written. \<open>self.redis.client.lpush\<close>
  reads the attribute of \<open>client\<close> directly, so it raises when \<open>client\<close> is \<open>None\<close>.
\<close>

definition add_job ::
  "int \<times> string \<times> string \<Rightarrow> QueueManager \<Rightarrow> string \<Rightarrow> pyval \<Rightarrow> string option
     \<Rightarrow> error + (string \<times> QueueManager)" where
  "add_job clock qm queue_name job_data job_id_arg =
     (let (now_ms, t_created, t_updated) = clock;
          jid = resolve_id now_ms queue_name job_id_arg
      in case json_dumps job_data of
           Inl e \<Rightarrow> Inl e
         | Inr d \<Rightarrow>
             (let j = \<lparr>job_id = jid, queue = queue_name, data = d, status = ''queued'',
                       created_at = t_created, updated_at = t_updated, result = None\<rparr>
              in case RedisManager_set (redis qm) (''job:'' @ jid) j None of
                   Inl e \<Rightarrow> Inl e
                 | Inr (_, rm1) \<Rightarrow>
                     (case client rm1 of
                        None \<Rightarrow> Inl (AttributeError ''lpush'')
                      | Some c \<Rightarrow>
                          (let (_, c') = client_lpush c (''queue:'' @ queue_name) jid
                           in Inr (jid, qm\<lparr>redis := rm1\<lparr>client := Some c'\<rparr>,
                                            jobs := (jobs qm)(jid \<mapsto> j)\<rparr>)))))"

definition get_job :: "QueueManager \<Rightarrow> string \<Rightarrow> error + (job option \<times> QueueManager)" where
  "get_job qm jid =
     (case RedisManager_get (redis qm) (''job:'' @ jid) of
        Inl e \<Rightarrow> Inl e
      | Inr (job_data, rm1) \<Rightarrow> Inr (job_data, qm\<lparr>redis := rm1\<rparr>))"

text \<open>
  \<open>update_job_status\<close>; \<open>now\<close> is the clock reading of the call. \<open>res = Json JNull\<close>
  is \<open>result=None\<close>, which leaves the key \<open>"result"\<close> as it was. The dict comes
  from \<open>json.loads\<close>, so \<open>json.dumps(job)\<close> raises exactly when a result is put in
  and \<open>json.dumps\<close> raises on it; it is evaluated before \<open>redis.set\<close> is called and
  before the mirror is written.
\<close>

definition update_job_status ::
  "string \<Rightarrow> QueueManager \<Rightarrow> string \<Rightarrow> string \<Rightarrow> pyval \<Rightarrow> error + QueueManager" where
  "update_job_status now qm jid st res =
     (case get_job qm jid of
        Inl e \<Rightarrow> Inl e
      | Inr (None, qm1) \<Rightarrow> Inr qm1
      | Inr (Some j, qm1) \<Rightarrow>
          (let j1 = j\<lparr>status := st, updated_at := now\<rparr>
           in case (if res \<noteq> Json JNull
                    then (case json_dumps res of
                            Inl e \<Rightarrow> Inl e
                          | Inr r \<Rightarrow> Inr (j1\<lparr>result := Some r\<rparr>))
                    else Inr j1) of
                Inl e \<Rightarrow> Inl e
              | Inr j2 \<Rightarrow>
                  (case RedisManager_set (redis qm1) (''job:'' @ jid) j2 None of
                     Inl e \<Rightarrow> Inl e
                   | Inr (_, rm1) \<Rightarrow> Inr (qm1\<lparr>redis := rm1, jobs := (jobs qm1)(jid \<mapsto> j2)\<rparr>))))"

definition register_handler :: "QueueManager \<Rightarrow> string \<Rightarrow> handler \<Rightarrow> QueueManager" where
  "register_handler qm queue_name h = qm\<lparr>handlers := (handlers qm)(queue_name \<mapsto> h)\<rparr>"

text \<open>
  What one pass through the body of \<open>while True\<close> ended with: the one-second sleep
  of an empty pop, the \<open>continue\<close> of a missing record, a handled job, or the outer
  \<open>except\<close> with its five-second sleep. Every one of them goes on to the next pass.
\<close>

datatype loop_event = Idle | Skipped | Processed | LoopError error

text \<open>
  The inner \<open>try\<close>: the handler call and the \<open>completed\<close> write; the \<open>except\<close>
  writes \<open>failed\<close> with \<open>str(e)\<close>, and what that write raises goes to the outer
  \<open>except\<close>. The \<open>completed\<close> write is inside the \<open>try\<close>: when \<open>json.dumps\<close>
  raises on the handler's result, the \<open>except\<close> writes \<open>failed\<close>. \<open>now k\<close> is the
  \<open>k\<close>-th clock reading of the pass; the \<open>completed\<close> call that raised has taken
  reading 1 before it raised.
\<close>

definition run_handler ::
  "(nat \<Rightarrow> string) \<Rightarrow> QueueManager \<Rightarrow> string \<Rightarrow> string \<Rightarrow> job \<Rightarrow> handler
     \<Rightarrow> loop_event \<times> QueueManager" where
  "run_handler now qm queue_name jid j h =
     (let qm1 = qm\<lparr>invoked := invoked qm @ [(queue_name, data j)]\<rparr>
      in case h (data j) of
           Inr res \<Rightarrow>
             (case update_job_status (now 1) qm1 jid ''completed'' res of
                Inr qm2 \<Rightarrow> (Processed, qm2)
              | Inl e \<Rightarrow>
                  (case update_job_status (now 2) qm1 jid ''failed''
                          (Json (JStr (error_str e))) of
                     Inr qm2 \<Rightarrow> (Processed, qm2)
                   | Inl e2 \<Rightarrow> (LoopError e2, qm1)))
         | Inl d \<Rightarrow>
             (case update_job_status (now 1) qm1 jid ''failed'' (Json (JStr d)) of
                Inr qm2 \<Rightarrow> (Processed, qm2)
              | Inl e2 \<Rightarrow> (LoopError e2, qm1)))"

text \<open>One pass through the body of the loop of \<open>process_queue\<close>.\<close>

definition process_iteration ::
  "(nat \<Rightarrow> string) \<Rightarrow> string \<Rightarrow> QueueManager \<Rightarrow> loop_event \<times> QueueManager" where
  "process_iteration now queue_name qm =
     (case client (redis qm) of
        None \<Rightarrow> (LoopError (AttributeError ''rpop''), qm)
      | Some c \<Rightarrow>
          (let (popped, c1) = client_rpop c (''queue:'' @ queue_name);
               qm1 = qm\<lparr>redis := (redis qm)\<lparr>client := Some c1\<rparr>\<rparr>
           in case popped of
                None \<Rightarrow> (Idle, qm1)
              | Some jid \<Rightarrow>
                  if jid = [] then (Idle, qm1)
                  else
                    (case get_job qm1 jid of
                       Inl e \<Rightarrow> (LoopError e, qm1)
                     | Inr (None, qm2) \<Rightarrow> (Skipped, qm2)
                     | Inr (Some j, qm2) \<Rightarrow>
                         (case update_job_status (now 0) qm2 jid ''processing'' (Json JNull) of
                            Inl e \<Rightarrow> (LoopError e, qm2)
                          | Inr qm3 \<Rightarrow>
                              (case handlers qm3 queue_name of
                                 Some h \<Rightarrow> run_handler now qm3 queue_name jid j h
                               | None \<Rightarrow>
                                   (case update_job_status (now 1) qm3 jid ''failed''
                                           (Json (JStr ''No handler'')) of
                                      Inl e \<Rightarrow> (LoopError e, qm3)
                                    | Inr qm4 \<Rightarrow> (Processed, qm4)))))))"

text \<open>
  \<open>process_queue\<close> never leaves its loop by itself. The model runs as many passes as
  it is given clocks for (the passes made before the task is cancelled from outside)
  and returns what each pass ended with.
\<close>

fun process_queue ::
  "(nat \<Rightarrow> string) list \<Rightarrow> string \<Rightarrow> QueueManager \<Rightarrow> loop_event list \<times> QueueManager" where
  "process_queue [] queue_name qm = ([], qm)"
| "process_queue (now # rest) queue_name qm =
     (let (ev, qm1) = process_iteration now queue_name qm;
          (evs, qm2) = process_queue rest queue_name qm1
      in (ev # evs, qm2))"

text \<open>
  The calls of this module that a program makes on a manager, and the manager each
  leaves behind; a call that raises leaves the manager as it was when the exception
  left the call. \<open>WorkerPass\<close> is one pass of the loop of \<open>process_queue\<close>.
\<close>

datatype queue_call =
    AddJob "int \<times> string \<times> string" string pyval "string option"
  | UpdateJobStatus string string string pyval
  | RegisterHandler string handler
  | WorkerPass "nat \<Rightarrow> string" string

fun perform_queue_call :: "queue_call \<Rightarrow> QueueManager \<Rightarrow> QueueManager" where
  "perform_queue_call (AddJob clock queue_name job_data job_id_arg) qm =
     (case add_job clock qm queue_name job_data job_id_arg of
        Inl e \<Rightarrow> qm
      | Inr (_, qm1) \<Rightarrow> qm1)"
| "perform_queue_call (UpdateJobStatus now jid st res) qm =
     (case update_job_status now qm jid st res of Inl e \<Rightarrow> qm | Inr qm1 \<Rightarrow> qm1)"
| "perform_queue_call (RegisterHandler queue_name h) qm = register_handler qm queue_name h"
| "perform_queue_call (WorkerPass now queue_name) qm = snd (process_iteration now queue_name qm)"

fun run_queue_calls :: "queue_call list \<Rightarrow> QueueManager \<Rightarrow> QueueManager" where
  "run_queue_calls [] qm = qm"
| "run_queue_calls (c # cs) qm = run_queue_calls cs (perform_queue_call c qm)"

text \<open>What \<open>get_job\<close> shows of a job's status: the persisted field, read back.\<close>

definition persisted_status :: "QueueManager \<Rightarrow> string \<Rightarrow> string option" where
  "persisted_status qm jid =
     (case get_job qm jid of
        Inr (Some j, _) \<Rightarrow> Some (status j)
      | _ \<Rightarrow> None)"

text \<open>
  The statuses that have been written to a job's key, oldest first: the history of
  the persisted \<open>status\<close> field, as the commands sent to the store give it.
\<close>

fun status_writes :: "string \<Rightarrow> redis_op list \<Rightarrow> string list" where
  "status_writes key [] = []"
| "status_writes key (OpSet k j # ops) =
     (if k = key then status j # status_writes key ops else status_writes key ops)"
| "status_writes key (_ # ops) = status_writes key ops"

definition status_history :: "QueueManager \<Rightarrow> string \<Rightarrow> string list" where
  "status_history qm jid =
     (case client (redis qm) of
        None \<Rightarrow> []
      | Some c \<Rightarrow> status_writes (''job:'' @ jid) (oplog c))"

text \<open>
  The runs in which a job's record is written by \<open>add_job\<close> once and after that by
  the worker only: every \<open>add_job\<close> resolves to an id that has no record in the store
  at that moment, and \<open>update_job_status\<close> is not called from outside the worker
  loop. Registering a handler and a pass of the worker are always allowed.
\<close>

fun enqueues_new_id :: "queue_call \<Rightarrow> QueueManager \<Rightarrow> bool" where
  "enqueues_new_id (AddJob clock queue_name job_data job_id_arg) qm =
     (case client (redis qm) of
        None \<Rightarrow> True
      | Some c \<Rightarrow> kv c (''job:'' @ resolve_id (fst clock) queue_name job_id_arg) = None)"
| "enqueues_new_id (UpdateJobStatus now jid st res) qm = False"
| "enqueues_new_id (RegisterHandler queue_name h) qm = True"
| "enqueues_new_id (WorkerPass now queue_name) qm = True"

fun worker_owned_run :: "queue_call list \<Rightarrow> QueueManager \<Rightarrow> bool" where
  "worker_owned_run [] qm = True"
| "worker_owned_run (c # cs) qm =
     (enqueues_new_id c qm \<and> worker_owned_run cs (perform_queue_call c qm))"

text \<open>
  What such runs keep true of the store. No queue list holds an id twice and no id
  is in two lists; an id that is in a list has been written once, as \<open>queued\<close>; a
  key without a record has never been written; and a record has one of the three
  histories of a job that only moved forward, with the last status written as its
  status.
\<close>

definition store_inv :: "redis_client \<Rightarrow> bool" where
  "store_inv c \<longleftrightarrow>
     (\<forall>k. distinct (lists c k)) \<and>
     (\<forall>k k' x. x \<in> set (lists c k) \<longrightarrow> x \<in> set (lists c k') \<longrightarrow> k = k') \<and>
     (\<forall>k x. x \<in> set (lists c k) \<longrightarrow>
        status_writes (''job:'' @ x) (oplog c) = [''queued'']) \<and>
     (\<forall>x. case kv c (''job:'' @ x) of
            None \<Rightarrow> status_writes (''job:'' @ x) (oplog c) = []
          | Some j \<Rightarrow>
              status_writes (''job:'' @ x) (oplog c) \<in>
                {[''queued''], [''queued'', ''processing'', ''completed''],
                 [''queued'', ''processing'', ''failed'']} \<and>
              status j = last (status_writes (''job:'' @ x) (oplog c)))"

text \<open>
  A store that holds nothing yet, a manager connected to it, and a clock whose
  \<open>k\<close>-th reading is \<open>T\<close> followed by \<open>k\<close>.
\<close>

definition empty_store :: redis_client where
  "empty_store =
     \<lparr>kv = Map.empty, lists = (\<lambda>_. []), ttl = Map.empty, subscribers = (\<lambda>_. 0), oplog = []\<rparr>"

definition connected_manager :: RedisManager where
  "connected_manager = \<lparr>client = Some empty_store\<rparr>"

definition tick :: "nat \<Rightarrow> string" where
  "tick k = ''T'' @ str_nat k"

text \<open>
  A store in which job \<open>a\<close> of queue \<open>q\<close> has been enqueued, a store in which the id
  \<open>ghost\<close> has been pushed with no record behind it, and a handler that raises.
\<close>

definition job_a :: job where
  "job_a = \<lparr>job_id = ''a'', queue = ''q'', data = JObj [(''x'', JNum 1)], status = ''queued'',
            created_at = ''T0'', updated_at = ''T0'', result = None\<rparr>"

definition queued_store :: redis_client where
  "queued_store =
     snd (client_lpush (snd (client_set empty_store ''job:a'' job_a None)) ''queue:q'' ''a'')"

definition ghost_store :: redis_client where
  "ghost_store = snd (client_lpush empty_store ''queue:q'' ''ghost'')"

definition failing_handler :: handler where
  "failing_handler payload = Inl ''boom''"

text \<open>
  A value that \<open>json.dumps\<close> refuses, and a handler that returns it.
\<close>

definition a_datetime :: pyval where
  "a_datetime = Unserialisable (TypeError ''Object of type datetime is not JSON serializable'')"

definition datetime_handler :: handler where
  "datetime_handler payload = Inr a_datetime"

section \<open>webSocketServer.py\<close>

text \<open>
  The handle of a client is used through three calls, each of which can raise:
  \<open>accept\<close>, \<open>send_json\<close> and \<open>close\<close>. The record says what each of them does on
  this handle.
\<close>

record WebSocket =
  accept_fails :: bool
  send_fails :: bool
  close_fails :: bool

text \<open>
  A task made by \<open>asyncio.create_task(self._listen_pubsub())\<close>: it is listening on
  its subscription, or it has returned by itself (\<open>subscribe\<close> gave \<open>None\<close>, and
  the error of \<open>pubsub.listen()\<close> was caught and logged), or it has been cancelled
  and awaited.
\<close>

datatype task_state = Listening | Finished | Cancelled

text \<open>
  The two dicts are association lists in insertion order (\<open>broadcast\<close>, \<open>cleanup\<close>
  and \<open>disconnect\<close> iterate over them); \<open>AList.update\<close> replaces the value of a
  present key in place and puts a new key last, as assignment to a Python dict does.
  A user's \<open>set\<close> of connection ids is a list without repetition; its order is the
  iteration order, which Python leaves open. \<open>tasks\<close> holds every task the server has
  created, \<open>pubsub_task\<close> is the index of the one the attribute refers to. \<open>sent\<close>
  records each \<open>send_json\<close> that succeeded and \<open>closed\<close> each connection whose
  \<open>close\<close> returned.
\<close>

record WebSocketServer =
  ws_redis :: "RedisManager option"
  active_connections :: "(string \<times> WebSocket) list"
  user_connections :: "(string \<times> string list) list"
  pubsub_task :: "nat option"
  tasks :: "task_state list"
  sent :: "(string \<times> json) list"
  closed :: "string list"

definition WebSocketServer_init :: "RedisManager option \<Rightarrow> WebSocketServer" where
  "WebSocketServer_init rm =
     \<lparr>ws_redis = rm, active_connections = [], user_connections = [], pubsub_task = None,
      tasks = [], sent = [], closed = []\<rparr>"

text \<open>
  The start of \<open>_listen_pubsub\<close>, up to the point where it waits for messages:
  the subscription to \<open>websocket_broadcast\<close> and the state the new task is in.
\<close>

definition listen_pubsub :: "RedisManager \<Rightarrow> task_state \<times> RedisManager" where
  "listen_pubsub rm =
     (case RedisManager_subscribe rm [''websocket_broadcast''] of
        Inl e \<Rightarrow> (Finished, rm)
      | Inr (None, rm1) \<Rightarrow> (Finished, rm1)
      | Inr (Some ps, rm1) \<Rightarrow> (Listening, rm1))"

text \<open>
  \<open>connect\<close>; \<open>connection_id\<close> is the value of \<open>str(uuid.uuid4())\<close>. \<open>if user_id\<close>
  is false for \<open>None\<close> and for the empty string.
\<close>

definition connect ::
  "WebSocketServer \<Rightarrow> WebSocket \<Rightarrow> string option \<Rightarrow> string \<Rightarrow> error + (string \<times> WebSocketServer)" where
  "connect s websocket user_id connection_id =
     (if accept_fails websocket then Inl (RuntimeError ''accept'')
      else
        (let s1 = s\<lparr>active_connections :=
                      AList.update connection_id websocket (active_connections s)\<rparr>;
             s2 = (case user_id of
                     None \<Rightarrow> s1
                   | Some u \<Rightarrow>
                       if u = [] then s1
                       else s1\<lparr>user_connections :=
                                 AList.update u
                                   (List.insert connection_id
                                      (case map_of (user_connections s1) u of
                                         None \<Rightarrow> []
                                       | Some cs \<Rightarrow> cs))
                                   (user_connections s1)\<rparr>);
             s3 = (case ws_redis s2 of
                     None \<Rightarrow> s2
                   | Some rm \<Rightarrow>
                       (let (t, rm1) = listen_pubsub rm
                        in s2\<lparr>ws_redis := Some rm1, tasks := tasks s2 @ [t],
                              pubsub_task := Some (length (tasks s2))\<rparr>))
         in Inr (connection_id, s3)))"

text \<open>
  The loop of \<open>disconnect\<close> over \<open>user_connections.items()\<close>: the first user whose
  set holds the id loses it, loses the entry too when the set is left empty, and the
  loop breaks.
\<close>

fun remove_from_users :: "string \<Rightarrow> (string \<times> string list) list \<Rightarrow> (string \<times> string list) list" where
  "remove_from_users connection_id [] = []"
| "remove_from_users connection_id ((user_id, connections) # rest) =
     (if connection_id \<in> set connections
      then (if removeAll connection_id connections = [] then rest
            else (user_id, removeAll connection_id connections) # rest)
      else (user_id, connections) # remove_from_users connection_id rest)"

text \<open>
  \<open>disconnect\<close>: what \<open>close\<close> raises is swallowed, and the two dicts are
  updated whether it raised or not.
\<close>

definition disconnect :: "WebSocketServer \<Rightarrow> string \<Rightarrow> WebSocketServer" where
  "disconnect s connection_id =
     (case map_of (active_connections s) connection_id of
        None \<Rightarrow> s
      | Some websocket \<Rightarrow>
          s\<lparr>closed := (if close_fails websocket then closed s else closed s @ [connection_id]),
            active_connections := AList.delete connection_id (active_connections s),
            user_connections := remove_from_users connection_id (user_connections s)\<rparr>)"

definition send_to_connection ::
  "WebSocketServer \<Rightarrow> string \<Rightarrow> json \<Rightarrow> bool \<times> WebSocketServer" where
  "send_to_connection s connection_id message =
     (case map_of (active_connections s) connection_id of
        None \<Rightarrow> (False, s)
      | Some websocket \<Rightarrow>
          if send_fails websocket then (False, disconnect s connection_id)
          else (True, s\<lparr>sent := sent s @ [(connection_id, message)]\<rparr>))"

text \<open>The loop of \<open>send_to_user\<close> over the copy of the user's set.\<close>

fun send_to_user_loop ::
  "string list \<Rightarrow> json \<Rightarrow> int \<Rightarrow> WebSocketServer \<Rightarrow> int \<times> WebSocketServer" where
  "send_to_user_loop [] message sent_count s = (sent_count, s)"
| "send_to_user_loop (connection_id # rest) message sent_count s =
     (let (ok, s1) = send_to_connection s connection_id message
      in send_to_user_loop rest message (if ok then sent_count + 1 else sent_count) s1)"

definition send_to_user :: "WebSocketServer \<Rightarrow> string \<Rightarrow> json \<Rightarrow> int \<times> WebSocketServer" where
  "send_to_user s user_id message =
     (case map_of (user_connections s) user_id of
        None \<Rightarrow> (0, s)
      | Some connection_ids \<Rightarrow> send_to_user_loop connection_ids message 0 s)"

text \<open>
  The inner loop of \<open>broadcast\<close>: the first user whose set holds the id, or \<open>None\<close>.
\<close>

fun owner_of :: "string \<Rightarrow> (string \<times> string list) list \<Rightarrow> string option" where
  "owner_of connection_id [] = None"
| "owner_of connection_id ((uid, connections) # rest) =
     (if connection_id \<in> set connections then Some uid else owner_of connection_id rest)"

text \<open>
  The outer loop of \<open>broadcast\<close> over the snapshot \<open>list(active_connections.items())\<close>.
  \<open>if exclude_user\<close> is false for \<open>None\<close> and for the empty string.
\<close>

fun broadcast_loop ::
  "string list \<Rightarrow> json \<Rightarrow> string option \<Rightarrow> int \<Rightarrow> WebSocketServer \<Rightarrow> int \<times> WebSocketServer" where
  "broadcast_loop [] message exclude_user sent_count s = (sent_count, s)"
| "broadcast_loop (connection_id # rest) message exclude_user sent_count s =
     (if (case exclude_user of
            None \<Rightarrow> False
          | Some e \<Rightarrow> e \<noteq> [] \<and> owner_of connection_id (user_connections s) = Some e)
      then broadcast_loop rest message exclude_user sent_count s
      else
        (let (ok, s1) = send_to_connection s connection_id message
         in broadcast_loop rest message exclude_user
              (if ok then sent_count + 1 else sent_count) s1))"

definition broadcast ::
  "WebSocketServer \<Rightarrow> json \<Rightarrow> string option \<Rightarrow> int \<times> WebSocketServer" where
  "broadcast s message exclude_user =
     broadcast_loop (map fst (active_connections s)) message exclude_user 0 s"

text \<open>
  \<open>cleanup\<close>: every id of the snapshot of the keys is disconnected; then the task the
  attribute refers to is cancelled and awaited. Cancelling a task that has already
  returned changes nothing.
\<close>

definition cleanup :: "WebSocketServer \<Rightarrow> WebSocketServer" where
  "cleanup s =
     (let s1 = foldl disconnect s (map fst (active_connections s))
      in case pubsub_task s1 of
           None \<Rightarrow> s1
         | Some t \<Rightarrow>
             if t < length (tasks s1) \<and> tasks s1 ! t = Listening
             then s1\<lparr>tasks := (tasks s1)[t := Cancelled]\<rparr>
             else s1)"

text \<open>
  The calls a client of the server can make, and the state each leaves behind;
  a call that raises leaves the state as it was when the exception left the call.
\<close>

datatype ws_call =
    Connect WebSocket "string option" string
  | Disconnect string
  | SendToConnection string json
  | SendToUser string json
  | Broadcast json "string option"
  | Cleanup

fun perform :: "ws_call \<Rightarrow> WebSocketServer \<Rightarrow> WebSocketServer" where
  "perform (Connect websocket user_id connection_id) s =
     (case connect s websocket user_id connection_id of Inl e \<Rightarrow> s | Inr (_, s1) \<Rightarrow> s1)"
| "perform (Disconnect connection_id) s = disconnect s connection_id"
| "perform (SendToConnection connection_id message) s = snd (send_to_connection s connection_id message)"
| "perform (SendToUser user_id message) s = snd (send_to_user s user_id message)"
| "perform (Broadcast message exclude_user) s = snd (broadcast s message exclude_user)"
| "perform Cleanup s = cleanup s"

text \<open>
  The consistency of the two dicts: keys occur once (they are dicts); every id in a
  user's set is a key of \<open>active_connections\<close>; no user's set is empty; and no id is
  in the sets of two users.
\<close>

definition ids_are_active :: "WebSocketServer \<Rightarrow> bool" where
  "ids_are_active s \<longleftrightarrow>
     (\<forall>(u, cs) \<in> set (user_connections s). set cs \<subseteq> fst ` set (active_connections s))"

definition sets_nonempty :: "WebSocketServer \<Rightarrow> bool" where
  "sets_nonempty s \<longleftrightarrow> (\<forall>(u, cs) \<in> set (user_connections s). cs \<noteq> [])"

definition single_owner :: "WebSocketServer \<Rightarrow> bool" where
  "single_owner s \<longleftrightarrow>
     (\<forall>(u, cs) \<in> set (user_connections s). \<forall>(v, ds) \<in> set (user_connections s).
        u \<noteq> v \<longrightarrow> set cs \<inter> set ds = {})"

definition registry_inv :: "WebSocketServer \<Rightarrow> bool" where
  "registry_inv s \<longleftrightarrow>
     distinct (map fst (active_connections s)) \<and> distinct (map fst (user_connections s)) \<and>
     ids_are_active s \<and> sets_nonempty s \<and> single_owner s"

text \<open>A handle on which every call succeeds, and one on which \<open>send_json\<close> raises.\<close>

definition good_socket :: WebSocket where
  "good_socket = \<lparr>accept_fails = False, send_fails = False, close_fails = False\<rparr>"

definition broken_socket :: WebSocket where
  "broken_socket = \<lparr>accept_fails = False, send_fails = True, close_fails = False\<rparr>"

fun run_calls :: "ws_call list \<Rightarrow> WebSocketServer \<Rightarrow> WebSocketServer" where
  "run_calls [] s = s"
| "run_calls (c # cs) s = run_calls cs (perform c s)"

text \<open>
  A server without a store manager on which the user \<open>alice\<close> has connected twice.
\<close>

definition alice_two :: WebSocketServer where
  "alice_two =
     run_calls [Connect good_socket (Some ''alice'') ''c1'',
                Connect good_socket (Some ''alice'') ''c2'']
       (WebSocketServer_init None)"

text \<open>
  What \<open>uuid.uuid4()\<close> is relied on for: the id handed to \<open>connect\<close> is not the id
  of a connection the server already holds. The other calls need nothing.
\<close>

fun uuid_fresh :: "ws_call \<Rightarrow> WebSocketServer \<Rightarrow> bool" where
  "uuid_fresh (Connect websocket user_id connection_id) s =
     (connection_id \<notin> fst ` set (active_connections s))"
| "uuid_fresh other s = True"

section \<open>The store manager and the job queue: properties\<close>

subsection \<open>Auxiliary facts\<close>

lemma json_dumps_simps [simp]:
  "json_dumps (Json d) = Inr d"
  "json_dumps (Unserialisable e) = Inl e"
  by (simp_all add: json_dumps_def)

lemma rpop_Some:
  assumes "client_rpop c key = (Some jid, c1)"
  shows "lists c key \<noteq> [] \<and> jid = last (lists c key) \<and>
         c1 = c\<lparr>lists := (lists c)(key := butlast (lists c key)), oplog := oplog c @ [OpRPop key]\<rparr>"
  using assms by (auto simp: client_rpop_def split: list.splits)

lemma status_writes_append:
  "status_writes key (xs @ ys) = status_writes key xs @ status_writes key ys"
  by (induction key xs rule: status_writes.induct) simp_all

lemma add_job_connected:
  assumes "client (redis qm) = Some c"
  shows "add_job (now_ms, tc, tu) qm q (Json d) arg =
    (let jid = resolve_id now_ms q arg;
         j = \<lparr>job_id = jid, queue = q, data = d, status = ''queued'',
               created_at = tc, updated_at = tu, result = None\<rparr>
     in Inr (jid, qm\<lparr>redis := (redis qm)\<lparr>client := Some
           (snd (client_lpush (snd (client_set c (''job:'' @ jid) j None)) (''queue:'' @ q) jid))\<rparr>,
           jobs := (jobs qm)(jid \<mapsto> j)\<rparr>))"
  using assms
  by (simp add: add_job_def json_dumps_def RedisManager_set_def with_client_def Let_def
      split: prod.splits)

lemma add_job_unserialisable:
  "add_job clock qm q (Unserialisable e) arg = Inl e"
  by (simp add: add_job_def json_dumps_def split: prod.splits)

text \<open>
  A pass that pops the id of a job whose record is in the store: the two writes, the
  mirror and the handler call.
\<close>

lemma iteration_claimed:
  assumes conn: "client (redis qm) = Some c"
    and pop: "client_rpop c (''queue:'' @ q) = (Some jid, c1)"
    and ne: "jid \<noteq> []"
    and rec: "kv c (''job:'' @ jid) = Some j"
  shows "process_iteration now q qm =
     (Processed,
      (let j1 = j\<lparr>status := ''processing'', updated_at := now 0\<rparr>;
           j2 = (case handlers qm q of
                   None \<Rightarrow> j\<lparr>status := ''failed'', updated_at := now 1,
                               result := Some (JStr ''No handler'')\<rparr>
                 | Some h \<Rightarrow>
                     (case h (data j) of
                        Inl d \<Rightarrow> j\<lparr>status := ''failed'', updated_at := now 1,
                                    result := Some (JStr d)\<rparr>
                      | Inr (Json r) \<Rightarrow>
                          if r \<noteq> JNull
                          then j\<lparr>status := ''completed'', updated_at := now 1, result := Some r\<rparr>
                          else j\<lparr>status := ''completed'', updated_at := now 1\<rparr>
                      | Inr (Unserialisable e) \<Rightarrow>
                          j\<lparr>status := ''failed'', updated_at := now 2,
                            result := Some (JStr (error_str e))\<rparr>))
       in qm\<lparr>redis := (redis qm)\<lparr>client := Some
                (c1\<lparr>kv := (kv c1)(''job:'' @ jid \<mapsto> j2),
                    ttl := (ttl c1)(''job:'' @ jid := None),
                    oplog := oplog c1 @ [OpSet (''job:'' @ jid) j1, OpSet (''job:'' @ jid) j2]\<rparr>)\<rparr>,
              jobs := (jobs qm)(jid \<mapsto> j2),
              invoked := (case handlers qm q of
                            None \<Rightarrow> invoked qm
                          | Some h \<Rightarrow> invoked qm @ [(q, data j)])\<rparr>))"
proof -
  from rpop_Some[OF pop] have kv1: "kv c1 = kv c" by simp
  show ?thesis
  proof (cases "handlers qm q")
    case None
    then show ?thesis
      using conn pop ne rec kv1
      by (simp add: process_iteration_def update_job_status_def get_job_def RedisManager_get_def
          RedisManager_set_def with_client_def client_get_def client_set_def Let_def)
  next
    case (Some h)
    show ?thesis
    proof (cases "h (data j)")
      case (Inl d)
      then show ?thesis
        using conn pop ne rec kv1 Some
        by (simp add: process_iteration_def run_handler_def update_job_status_def get_job_def
            RedisManager_get_def RedisManager_set_def with_client_def client_get_def
            client_set_def Let_def)
    next
      case (Inr res)
      show ?thesis
      proof (cases res)
        case (Json r)
        then show ?thesis
          using conn pop ne rec kv1 Some Inr
          by (simp add: process_iteration_def run_handler_def update_job_status_def get_job_def
              json_dumps_def RedisManager_get_def RedisManager_set_def with_client_def
              client_get_def client_set_def Let_def)
      next
        case (Unserialisable e)
        then show ?thesis
          using conn pop ne rec kv1 Some Inr
          by (simp add: process_iteration_def run_handler_def update_job_status_def get_job_def
              json_dumps_def RedisManager_get_def RedisManager_set_def with_client_def
              client_get_def client_set_def Let_def)
      qed
    qed
  qed
qed

text \<open>The status that a pass leaves a claimed job with.\<close>

lemma iteration_claimed_props:
  assumes conn: "client (redis qm) = Some c"
    and pop: "client_rpop c (''queue:'' @ q) = (Some jid, c1)"
    and ne: "jid \<noteq> []"
    and rec: "kv c (''job:'' @ jid) = Some j"
  shows "\<exists>qm1 c2 j2.
     process_iteration now q qm = (Processed, qm1) \<and> client (redis qm1) = Some c2 \<and>
     kv c2 (''job:'' @ jid) = Some j2 \<and> data j2 = data j \<and>
     lists c2 = lists c1 \<and> handlers qm1 = handlers qm \<and>
     status_writes (''job:'' @ jid) (oplog c2) =
       status_writes (''job:'' @ jid) (oplog c) @
         [''processing'',
          case handlers qm q of
            None \<Rightarrow> ''failed''
          | Some h \<Rightarrow>
              (case h (data j) of
                 Inl d \<Rightarrow> ''failed''
               | Inr (Json r) \<Rightarrow> ''completed''
               | Inr (Unserialisable e) \<Rightarrow> ''failed'')]"
proof -
  have lg: "oplog c1 = oplog c @ [OpRPop (''queue:'' @ q)]"
    using rpop_Some[OF pop] by simp
  show ?thesis
    using lg
    by (simp add: iteration_claimed[OF conn pop ne rec] Let_def status_writes_append
        split: option.splits sum.splits pyval.splits)
qed

lemma iteration_claimed_store:
  assumes conn: "client (redis qm) = Some c"
    and pop: "client_rpop c (''queue:'' @ q) = (Some jid, c1)"
    and ne: "jid \<noteq> []"
    and rec: "kv c (''job:'' @ jid) = Some j"
  shows "\<exists>qm1 c2 j2.
     process_iteration now q qm = (Processed, qm1) \<and> client (redis qm1) = Some c2 \<and>
     kv c2 (''job:'' @ jid) = Some j2 \<and>
     (\<forall>key. key \<noteq> ''job:'' @ jid \<longrightarrow> kv c2 key = kv c key) \<and>
     lists c2 = lists c1 \<and>
     (status j2 = ''completed'' \<or> status j2 = ''failed'') \<and>
     (\<forall>key. status_writes key (oplog c2) =
        status_writes key (oplog c) @
          (if key = ''job:'' @ jid then [''processing'', status j2] else []))"
proof -
  have lg: "oplog c1 = oplog c @ [OpRPop (''queue:'' @ q)]" and kv1: "kv c1 = kv c"
    using rpop_Some[OF pop] by simp_all
  show ?thesis
    using lg kv1
    by (simp add: iteration_claimed[OF conn pop ne rec] Let_def status_writes_append
        split: option.splits sum.splits pyval.splits)
qed

lemma iteration_missing_record:
  assumes conn: "client (redis qm) = Some c"
    and pop: "client_rpop c (''queue:'' @ q) = (Some jid, c1)"
    and rec: "kv c (''job:'' @ jid) = None"
  shows "process_iteration now q qm =
     (if jid = [] then Idle else Skipped, qm\<lparr>redis := (redis qm)\<lparr>client := Some c1\<rparr>\<rparr>)"
proof -
  from rpop_Some[OF pop] have kv1: "kv c1 = kv c" by simp
  show ?thesis
    using conn pop rec kv1
    by (simp add: process_iteration_def get_job_def RedisManager_get_def client_get_def)
qed

lemma process_queue_length: "length (fst (process_queue clocks q qm)) = length clocks"
  by (induction clocks arbitrary: qm) (simp_all add: split_beta Let_def)

lemma ghost_pop:
  "client_rpop ghost_store ''queue:q'' = (Some ''ghost'', snd (client_rpop ghost_store ''queue:q''))"
  by (simp add: ghost_store_def client_lpush_def client_rpop_def empty_store_def)

subsection \<open>Calls on a store that was never connected\<close>

text \<open>
  C4, as the code has it. A manager whose \<open>client\<close> is still \<open>None\<close> does not raise
  in \<open>get\<close>, \<open>set\<close>, \<open>delete\<close>, \<open>exists\<close>, \<open>expire\<close>, \<open>publish\<close>, \<open>subscribe\<close> or
  \<open>health_check\<close>: each returns its value of absence (\<open>None\<close>, \<open>False\<close>, \<open>0\<close>) and
  leaves the manager as it was. Only \<open>pipeline\<close> raises, with \<open>RuntimeError\<close>. The
  queue manager reaches past the manager to \<open>client\<close> itself: \<open>add_job\<close>, given a
  payload that \<open>json.dumps\<close> accepts, raises at \<open>client.lpush\<close>, after its \<open>set\<close> has
  returned \<open>False\<close>, and the worker loop catches the error of \<open>client.rpop\<close> in its
  outer \<open>except\<close> and goes on.
\<close>

theorem unconnected_store_calls:
  "RedisManager_get RedisManager_init key = Inr (None, RedisManager_init) \<and>
   RedisManager_set RedisManager_init key v ex = Inr (False, RedisManager_init) \<and>
   RedisManager_delete RedisManager_init key = Inr (0, RedisManager_init) \<and>
   RedisManager_exists RedisManager_init key = Inr (False, RedisManager_init) \<and>
   RedisManager_expire RedisManager_init key time = Inr (False, RedisManager_init) \<and>
   RedisManager_publish RedisManager_init channel message = Inr (0, RedisManager_init) \<and>
   RedisManager_subscribe RedisManager_init channels = Inr (None, RedisManager_init) \<and>
   RedisManager_health_check RedisManager_init = Inr (False, RedisManager_init) \<and>
   RedisManager_pipeline RedisManager_init = Inl (RuntimeError ''Redis client not connected'') \<and>
   add_job clock (qm\<lparr>redis := RedisManager_init\<rparr>) queue_name (Json job_data) job_id_arg
     = Inl (AttributeError ''lpush'') \<and>
   process_iteration now queue_name (qm\<lparr>redis := RedisManager_init\<rparr>)
     = (LoopError (AttributeError ''rpop''), qm\<lparr>redis := RedisManager_init\<rparr>)"
  by (simp add: RedisManager_get_def RedisManager_set_def RedisManager_delete_def
      RedisManager_exists_def RedisManager_expire_def RedisManager_publish_def
      RedisManager_subscribe_def RedisManager_health_check_def RedisManager_pipeline_def
      RedisManager_init_def add_job_def json_dumps_def process_iteration_def split: prod.splits)

text \<open>
  C4, as the specification states it, fails: on a manager that was never connected,
  \<open>get\<close> returns \<open>None\<close> and \<open>set\<close> returns \<open>False\<close>; neither raises.
\<close>

theorem unconnected_get_counterexample:
  "RedisManager_get RedisManager_init ''job:a'' = Inr (None, RedisManager_init) \<and>
   RedisManager_set RedisManager_init ''job:a'' job_a None = Inr (False, RedisManager_init)"
  by (simp add: RedisManager_get_def RedisManager_set_def RedisManager_init_def)

subsection \<open>Enqueueing\<close>

text \<open>
  C5, as the code has it. On a connected store, \<open>add_job\<close> with a payload that
  \<open>json.dumps\<close> accepts returns the resolved id: the id the caller gave when it gave
  a non-empty one, and otherwise (no id, or the empty string) the queue name, an
  underscore and the millisecond timestamp. The record, with status \<open>queued\<close> and
  both timestamps, is written first and the id is pushed second: these are the two
  commands the call adds to the store's history, in this order. With a payload on
  which \<open>json.dumps\<close> raises, the call raises that error and returns no id.
\<close>

theorem add_job_on_connected_store:
  assumes "client (redis qm) = Some c"
  shows "(case add_job (now_ms, t_created, t_updated) qm queue_name (Json job_data) job_id_arg of
      Inl e \<Rightarrow> False
    | Inr (jid, qm1) \<Rightarrow>
        jid = (case job_id_arg of
                 None \<Rightarrow> queue_name @ ''_'' @ str_int now_ms
               | Some given \<Rightarrow>
                   if given = [] then queue_name @ ''_'' @ str_int now_ms else given) \<and>
        (case client (redis qm1) of
           None \<Rightarrow> False
         | Some c1 \<Rightarrow>
             oplog c1 = oplog c @
               [OpSet (''job:'' @ jid)
                  \<lparr>job_id = jid, queue = queue_name, data = job_data, status = ''queued'',
                   created_at = t_created, updated_at = t_updated, result = None\<rparr>,
                OpLPush (''queue:'' @ queue_name) jid] \<and>
             kv c1 (''job:'' @ jid) =
               Some \<lparr>job_id = jid, queue = queue_name, data = job_data, status = ''queued'',
                     created_at = t_created, updated_at = t_updated, result = None\<rparr> \<and>
             lists c1 (''queue:'' @ queue_name) = jid # lists c (''queue:'' @ queue_name))) \<and>
    add_job (now_ms, t_created, t_updated) qm queue_name (Unserialisable err) job_id_arg = Inl err \<and>
    perform_queue_call
      (AddJob (now_ms, t_created, t_updated) queue_name (Unserialisable err) job_id_arg) qm = qm"
proof -
  have a: "case add_job (now_ms, t_created, t_updated) qm queue_name (Json job_data) job_id_arg of
      Inl e \<Rightarrow> False
    | Inr (jid, qm1) \<Rightarrow>
        jid = (case job_id_arg of
                 None \<Rightarrow> queue_name @ ''_'' @ str_int now_ms
               | Some given \<Rightarrow>
                   if given = [] then queue_name @ ''_'' @ str_int now_ms else given) \<and>
        (case client (redis qm1) of
           None \<Rightarrow> False
         | Some c1 \<Rightarrow>
             oplog c1 = oplog c @
               [OpSet (''job:'' @ jid)
                  \<lparr>job_id = jid, queue = queue_name, data = job_data, status = ''queued'',
                   created_at = t_created, updated_at = t_updated, result = None\<rparr>,
                OpLPush (''queue:'' @ queue_name) jid] \<and>
             kv c1 (''job:'' @ jid) =
               Some \<lparr>job_id = jid, queue = queue_name, data = job_data, status = ''queued'',
                     created_at = t_created, updated_at = t_updated, result = None\<rparr> \<and>
             lists c1 (''queue:'' @ queue_name) = jid # lists c (''queue:'' @ queue_name))"
    by (simp add: add_job_connected[OF assms] Let_def client_set_def client_lpush_def
        resolve_id_def)
  have b: "add_job (now_ms, t_created, t_updated) qm queue_name (Unserialisable err) job_id_arg
      = Inl err"
    by (rule add_job_unserialisable)
  have c: "perform_queue_call
      (AddJob (now_ms, t_created, t_updated) queue_name (Unserialisable err) job_id_arg) qm = qm"
    by (simp add: b)
  show ?thesis using a b c by blast
qed

theorem add_job_on_connected_store_witness:
  "(case add_job (1700000000123, ''T0'', ''T1'') (QueueManager_init connected_manager) ''jobs''
        (Json (JObj [(''x'', JNum 1)])) None of
      Inl e \<Rightarrow> False
    | Inr (jid, qm1) \<Rightarrow>
        jid = ''jobs_1700000000123'' \<and>
        (case client (redis qm1) of
           None \<Rightarrow> False
         | Some c1 \<Rightarrow>
             oplog c1 =
               [OpSet ''job:jobs_1700000000123''
                  \<lparr>job_id = ''jobs_1700000000123'', queue = ''jobs'', data = JObj [(''x'', JNum 1)],
                   status = ''queued'', created_at = ''T0'', updated_at = ''T1'', result = None\<rparr>,
                OpLPush ''queue:jobs'' ''jobs_1700000000123''])) \<and>
   add_job (1700000000123, ''T0'', ''T1'') (QueueManager_init connected_manager) ''jobs''
        (Unserialisable (ValueError ''Circular reference detected'')) None
     = Inl (ValueError ''Circular reference detected'')"
proof -
  have conn: "client (redis (QueueManager_init connected_manager)) = Some empty_store"
    by (simp add: QueueManager_init_def connected_manager_def)
  have e: "oplog empty_store = []" "lists empty_store ''queue:jobs'' = []"
    by (simp_all add: empty_store_def)
  have s: "str_int 1700000000123 = ''1700000000123''"
    by (simp add: str_int_def str_nat.simps digit_def)
  show ?thesis
    using add_job_on_connected_store[OF conn, where now_ms = 1700000000123 and t_created = "''T0''"
        and t_updated = "''T1''" and queue_name = "''jobs''" and job_data = "JObj [(''x'', JNum 1)]"
        and job_id_arg = None and err = "ValueError ''Circular reference detected''"]
    by (simp add: e s split: sum.splits prod.splits option.splits)
qed

text \<open>
  C5, as the specification states it, fails: \<open>add_job\<close> does not return an id
  whatever it is given. On a connected store, with an id of the caller's and a
  payload that holds a \<open>datetime\<close>, the call raises the \<open>TypeError\<close> of \<open>json.dumps\<close>;
  no record has been written and no id pushed.
\<close>

theorem add_job_unserialisable_payload:
  "add_job (1700000000123, ''T0'', ''T1'') (QueueManager_init connected_manager) ''jobs''
      a_datetime (Some ''a'')
     = Inl (TypeError ''Object of type datetime is not JSON serializable'') \<and>
   perform_queue_call (AddJob (1700000000123, ''T0'', ''T1'') ''jobs'' a_datetime (Some ''a''))
      (QueueManager_init connected_manager) = QueueManager_init connected_manager \<and>
   client (redis (QueueManager_init connected_manager)) = Some empty_store \<and>
   oplog empty_store = [] \<and> kv empty_store ''job:a'' = None \<and>
   lists empty_store ''queue:jobs'' = []"
  by (simp add: add_job_def json_dumps_def a_datetime_def QueueManager_init_def
      connected_manager_def empty_store_def)

subsection \<open>A popped id without a record\<close>

text \<open>
  C7. When the worker pops an id whose record is not in the store, the pass ends in
  the \<open>continue\<close> (for the empty id, in the sleep of an empty pop): it raises nothing,
  the only command it has sent is the pop, so no record is written, and the loop
  goes on with its next pass; the loop makes every pass it is given time for.
\<close>

theorem missing_record_is_skipped:
  assumes conn: "client (redis qm) = Some c"
    and pop: "client_rpop c (''queue:'' @ queue_name) = (Some jid, c1)"
    and rec: "kv c (''job:'' @ jid) = None"
  shows "process_iteration now queue_name qm =
           (if jid = [] then Idle else Skipped, qm\<lparr>redis := (redis qm)\<lparr>client := Some c1\<rparr>\<rparr>) \<and>
         kv c1 = kv c \<and> oplog c1 = oplog c @ [OpRPop (''queue:'' @ queue_name)] \<and>
         process_queue (now # rest) queue_name qm =
           (case process_queue rest queue_name (qm\<lparr>redis := (redis qm)\<lparr>client := Some c1\<rparr>\<rparr>) of
              (evs, qm2) \<Rightarrow> ((if jid = [] then Idle else Skipped) # evs, qm2)) \<and>
         length (fst (process_queue (now # rest) queue_name qm)) = Suc (length rest)"
proof -
  have it: "process_iteration now queue_name qm =
           (if jid = [] then Idle else Skipped, qm\<lparr>redis := (redis qm)\<lparr>client := Some c1\<rparr>\<rparr>)"
    by (rule iteration_missing_record[OF conn pop rec])
  have c1: "kv c1 = kv c" "oplog c1 = oplog c @ [OpRPop (''queue:'' @ queue_name)]"
    using rpop_Some[OF pop] by simp_all
  have pq: "process_queue (now # rest) queue_name qm =
           (case process_queue rest queue_name (qm\<lparr>redis := (redis qm)\<lparr>client := Some c1\<rparr>\<rparr>) of
              (evs, qm2) \<Rightarrow> ((if jid = [] then Idle else Skipped) # evs, qm2))"
    by (simp add: it split: prod.splits)
  have len: "length (fst (process_queue (now # rest) queue_name qm)) = Suc (length rest)"
    using process_queue_length[of "now # rest" queue_name qm] by simp
  show ?thesis using it c1 pq len by blast
qed

theorem missing_record_is_skipped_witness:
  "process_iteration tick ''q'' (QueueManager_init \<lparr>client = Some ghost_store\<rparr>) =
     (Skipped, QueueManager_init \<lparr>client = Some (snd (client_rpop ghost_store ''queue:q''))\<rparr>) \<and>
   kv (snd (client_rpop ghost_store ''queue:q'')) = kv ghost_store \<and>
   fst (process_queue [tick, tick] ''q'' (QueueManager_init \<lparr>client = Some ghost_store\<rparr>))
     = [Skipped, Idle]"
proof -
  have conn: "client (redis (QueueManager_init \<lparr>client = Some ghost_store\<rparr>)) = Some ghost_store"
    by (simp add: QueueManager_init_def)
  have rec: "kv ghost_store (''job:'' @ ''ghost'') = None"
    by (simp add: ghost_store_def client_lpush_def empty_store_def)
  have pop: "client_rpop ghost_store (''queue:'' @ ''q'') =
      (Some ''ghost'', snd (client_rpop ghost_store ''queue:q''))"
    using ghost_pop by simp
  have idle: "process_iteration tick ''q''
      (QueueManager_init \<lparr>client = Some (snd (client_rpop ghost_store ''queue:q''))\<rparr>)
      = (Idle, QueueManager_init \<lparr>client = Some (snd (client_rpop
            (snd (client_rpop ghost_store ''queue:q'')) ''queue:q''))\<rparr>)"
    by (simp add: process_iteration_def QueueManager_init_def ghost_store_def client_lpush_def
        client_rpop_def empty_store_def)
  show ?thesis
    using missing_record_is_skipped[OF conn pop rec, of tick "[tick]"] idle
    by (simp add: QueueManager_init_def)
qed


lemma queued_store_facts:
  "client_rpop queued_store ''queue:q'' = (Some ''a'', snd (client_rpop queued_store ''queue:q''))"
  "kv queued_store ''job:a'' = Some job_a"
  "lists queued_store ''queue:q'' = [''a'']"
  "oplog queued_store = [OpSet ''job:a'' job_a, OpLPush ''queue:q'' ''a'']"
  by (simp_all add: queued_store_def client_lpush_def client_set_def client_rpop_def empty_store_def)

subsection \<open>Jobs that fail\<close>

text \<open>
  C6. Let the worker pop the id of a job whose record is in the store. If no handler
  is registered for the queue, the pass leaves the record with status \<open>failed\<close> and
  result \<open>No handler\<close> and calls no handler. If the registered handler raises, the
  pass leaves the record with status \<open>failed\<close> and the error's description as
  result. In both cases the queue list is what the pop left and the pass has sent
  the pop and two writes of the record, no push: the id is not queued again.
\<close>

theorem failed_job_is_not_requeued:
  assumes conn: "client (redis qm) = Some c"
    and pop: "client_rpop c (''queue:'' @ queue_name) = (Some jid, c1)"
    and ne: "jid \<noteq> []"
    and rec: "kv c (''job:'' @ jid) = Some j"
  shows "case process_iteration now queue_name qm of
      (ev, qm1) \<Rightarrow>
        (case client (redis qm1) of
           None \<Rightarrow> False
         | Some c2 \<Rightarrow>
             (handlers qm queue_name = None \<longrightarrow>
                ev = Processed \<and>
                kv c2 (''job:'' @ jid) =
                  Some (j\<lparr>status := ''failed'', updated_at := now 1,
                          result := Some (JStr ''No handler'')\<rparr>) \<and>
                invoked qm1 = invoked qm \<and>
                lists c2 = (lists c)(''queue:'' @ queue_name :=
                                       butlast (lists c (''queue:'' @ queue_name))) \<and>
                oplog c2 = oplog c @
                  [OpRPop (''queue:'' @ queue_name),
                   OpSet (''job:'' @ jid) (j\<lparr>status := ''processing'', updated_at := now 0\<rparr>),
                   OpSet (''job:'' @ jid)
                     (j\<lparr>status := ''failed'', updated_at := now 1,
                        result := Some (JStr ''No handler'')\<rparr>)]) \<and>
             (\<forall>h d. handlers qm queue_name = Some h \<and> h (data j) = Inl d \<longrightarrow>
                ev = Processed \<and>
                kv c2 (''job:'' @ jid) =
                  Some (j\<lparr>status := ''failed'', updated_at := now 1, result := Some (JStr d)\<rparr>) \<and>
                invoked qm1 = invoked qm @ [(queue_name, data j)] \<and>
                lists c2 = (lists c)(''queue:'' @ queue_name :=
                                       butlast (lists c (''queue:'' @ queue_name))) \<and>
                oplog c2 = oplog c @
                  [OpRPop (''queue:'' @ queue_name),
                   OpSet (''job:'' @ jid) (j\<lparr>status := ''processing'', updated_at := now 0\<rparr>),
                   OpSet (''job:'' @ jid)
                     (j\<lparr>status := ''failed'', updated_at := now 1, result := Some (JStr d)\<rparr>)]))"
proof -
  note c1 = rpop_Some[OF pop]
  have c1': "lists c1 = (lists c)(''queue:'' @ queue_name := butlast (lists c (''queue:'' @ queue_name)))"
    "oplog c1 = oplog c @ [OpRPop (''queue:'' @ queue_name)]"
    using c1 by simp_all
  show ?thesis
    by (auto simp add: iteration_claimed[OF conn pop ne rec] Let_def c1')
qed

theorem failed_job_is_not_requeued_witness:
  "(case process_iteration tick ''q'' (QueueManager_init \<lparr>client = Some queued_store\<rparr>) of
      (ev, qm1) \<Rightarrow>
        ev = Processed \<and> invoked qm1 = [] \<and>
        (case client (redis qm1) of
           None \<Rightarrow> False
         | Some c2 \<Rightarrow>
             kv c2 ''job:a'' = Some (job_a\<lparr>status := ''failed'', updated_at := tick 1,
                                          result := Some (JStr ''No handler'')\<rparr>) \<and>
             lists c2 ''queue:q'' = [])) \<and>
   (case process_iteration tick ''q''
           (register_handler (QueueManager_init \<lparr>client = Some queued_store\<rparr>) ''q'' failing_handler) of
      (ev, qm1) \<Rightarrow>
        ev = Processed \<and> invoked qm1 = [(''q'', JObj [(''x'', JNum 1)])] \<and>
        (case client (redis qm1) of
           None \<Rightarrow> False
         | Some c2 \<Rightarrow>
             kv c2 ''job:a'' = Some (job_a\<lparr>status := ''failed'', updated_at := tick 1,
                                          result := Some (JStr ''boom'')\<rparr>) \<and>
             lists c2 ''queue:q'' = []))"
proof -
  have conn1: "client (redis (QueueManager_init \<lparr>client = Some queued_store\<rparr>)) = Some queued_store"
    by (simp add: QueueManager_init_def)
  have conn2: "client (redis (register_handler (QueueManager_init \<lparr>client = Some queued_store\<rparr>)
                  ''q'' failing_handler)) = Some queued_store"
    by (simp add: QueueManager_init_def register_handler_def)
  have pop: "client_rpop queued_store (''queue:'' @ ''q'') =
      (Some ''a'', snd (client_rpop queued_store ''queue:q''))"
    using queued_store_facts(1) by simp
  have rec: "kv queued_store (''job:'' @ ''a'') = Some job_a"
    using queued_store_facts(2) by simp
  have ne: "''a'' \<noteq> []" by simp
  have h1: "handlers (QueueManager_init \<lparr>client = Some queued_store\<rparr>) ''q'' = None"
    "invoked (QueueManager_init \<lparr>client = Some queued_store\<rparr>) = []"
    by (simp_all add: QueueManager_init_def)
  have h2: "handlers (register_handler (QueueManager_init \<lparr>client = Some queued_store\<rparr>)
                  ''q'' failing_handler) ''q'' = Some failing_handler"
    "invoked (register_handler (QueueManager_init \<lparr>client = Some queued_store\<rparr>)
                  ''q'' failing_handler) = []"
    "failing_handler (data job_a) = Inl ''boom''"
    "data job_a = JObj [(''x'', JNum 1)]"
    by (simp_all add: QueueManager_init_def register_handler_def failing_handler_def job_a_def)
  have l: "lists queued_store ''queue:q'' = [''a'']"
    by (rule queued_store_facts(3))
  show ?thesis
    using failed_job_is_not_requeued[OF conn1 pop ne rec, of tick]
      failed_job_is_not_requeued[OF conn2 pop ne rec, of tick]
    by (simp add: h1 h2 l failing_handler_def split: prod.splits option.splits)
qed


subsection \<open>The history of a job's status\<close>

text \<open>What a pass of the worker does to a connected store, whatever it pops.\<close>

lemma iteration_store:
  assumes conn: "client (redis qm) = Some c"
  shows "\<exists>c'. client (redis (snd (process_iteration now q qm))) = Some c' \<and>
      lists c' = (lists c)(''queue:'' @ q := butlast (lists c (''queue:'' @ q))) \<and>
      ((kv c' = kv c \<and> (\<forall>key. status_writes key (oplog c') = status_writes key (oplog c))) \<or>
       (\<exists>j2. lists c (''queue:'' @ q) \<noteq> [] \<and>
          kv c' (''job:'' @ last (lists c (''queue:'' @ q))) = Some j2 \<and>
          (\<forall>key. key \<noteq> ''job:'' @ last (lists c (''queue:'' @ q)) \<longrightarrow> kv c' key = kv c key) \<and>
          (status j2 = ''completed'' \<or> status j2 = ''failed'') \<and>
          (\<forall>key. status_writes key (oplog c') =
             status_writes key (oplog c) @
               (if key = ''job:'' @ last (lists c (''queue:'' @ q))
                then [''processing'', status j2] else []))))"
proof (cases "client_rpop c (''queue:'' @ q)")
  case (Pair popped c1)
  show ?thesis
  proof (cases popped)
    case None
    have e: "lists c (''queue:'' @ q) = []"
      and c1: "c1 = c\<lparr>oplog := oplog c @ [OpRPop (''queue:'' @ q)]\<rparr>"
      using Pair None by (auto simp: client_rpop_def split: list.splits)
    have it: "process_iteration now q qm = (Idle, qm\<lparr>redis := (redis qm)\<lparr>client := Some c1\<rparr>\<rparr>)"
      using conn Pair None by (simp add: process_iteration_def)
    have l: "(lists c)(''queue:'' @ q := butlast (lists c (''queue:'' @ q))) = lists c"
      using e by (simp add: fun_upd_idem_iff)
    show ?thesis
      using l by (simp add: it c1 status_writes_append)
  next
    case (Some jid)
    have pop: "client_rpop c (''queue:'' @ q) = (Some jid, c1)"
      using Pair Some by simp
    note r = rpop_Some[OF pop]
    have ne: "lists c (''queue:'' @ q) \<noteq> []" and jid: "jid = last (lists c (''queue:'' @ q))"
      and l1: "lists c1 = (lists c)(''queue:'' @ q := butlast (lists c (''queue:'' @ q)))"
      and kv1: "kv c1 = kv c"
      and lg1: "oplog c1 = oplog c @ [OpRPop (''queue:'' @ q)]"
      using r by simp_all
    show ?thesis
    proof (cases "jid = [] \<or> kv c (''job:'' @ jid) = None")
      case True
      have it: "snd (process_iteration now q qm) = qm\<lparr>redis := (redis qm)\<lparr>client := Some c1\<rparr>\<rparr>"
      proof (cases "jid = []")
        case e: True
        then show ?thesis
          using conn pop by (simp add: process_iteration_def)
      next
        case False
        then have "kv c (''job:'' @ jid) = None"
          using True by simp
        then show ?thesis
          by (simp add: iteration_missing_record[OF conn pop])
      qed
      show ?thesis
        using l1 kv1 lg1 by (simp add: it status_writes_append)
    next
      case False
      then obtain j where nej: "jid \<noteq> []" and rec: "kv c (''job:'' @ jid) = Some j"
        by auto
      obtain qm1 c2 j2 where it: "process_iteration now q qm = (Processed, qm1)"
        and conn2: "client (redis qm1) = Some c2"
        and kv2: "kv c2 (''job:'' @ jid) = Some j2"
        and kvo: "\<forall>key. key \<noteq> ''job:'' @ jid \<longrightarrow> kv c2 key = kv c key"
        and l2: "lists c2 = lists c1"
        and st: "status j2 = ''completed'' \<or> status j2 = ''failed''"
        and lg2: "\<forall>key. status_writes key (oplog c2) =
                   status_writes key (oplog c) @
                     (if key = ''job:'' @ jid then [''processing'', status j2] else [])"
        using iteration_claimed_store[OF conn pop nej rec, of now] by blast
      have "lists c2 = (lists c)(''queue:'' @ q := butlast (lists c (''queue:'' @ q)))"
        using l2 l1 by simp
      moreover have "\<exists>j2. lists c (''queue:'' @ q) \<noteq> [] \<and>
          kv c2 (''job:'' @ last (lists c (''queue:'' @ q))) = Some j2 \<and>
          (\<forall>key. key \<noteq> ''job:'' @ last (lists c (''queue:'' @ q)) \<longrightarrow> kv c2 key = kv c key) \<and>
          (status j2 = ''completed'' \<or> status j2 = ''failed'') \<and>
          (\<forall>key. status_writes key (oplog c2) =
             status_writes key (oplog c) @
               (if key = ''job:'' @ last (lists c (''queue:'' @ q))
                then [''processing'', status j2] else []))"
        using ne kv2 kvo st lg2 unfolding jid by blast
      ultimately show ?thesis
        using conn2 by (simp add: it)
    qed
  qed
qed

text \<open>The three ways in which a call changes the store keep the invariant.\<close>

lemma store_inv_not_listed:
  assumes inv: "store_inv c" and new: "kv c (''job:'' @ x) = None"
  shows "x \<notin> set (lists c k)"
proof
  assume "x \<in> set (lists c k)"
  then have "status_writes (''job:'' @ x) (oplog c) = [''queued'']"
    using inv unfolding store_inv_def by blast
  moreover have "status_writes (''job:'' @ x) (oplog c) = []"
  proof -
    have "case kv c (''job:'' @ x) of
            None \<Rightarrow> status_writes (''job:'' @ x) (oplog c) = []
          | Some j \<Rightarrow>
              status_writes (''job:'' @ x) (oplog c) \<in>
                {[''queued''], [''queued'', ''processing'', ''completed''],
                 [''queued'', ''processing'', ''failed'']} \<and>
              status j = last (status_writes (''job:'' @ x) (oplog c))"
      using inv unfolding store_inv_def by blast
    then show ?thesis using new by simp
  qed
  ultimately show False by simp
qed

lemma store_inv_push:
  assumes inv: "store_inv c"
    and new: "kv c (''job:'' @ x) = None"
    and st: "status j = ''queued''"
    and kv': "kv c' = (kv c)(''job:'' @ x \<mapsto> j)"
    and l': "lists c' = (lists c)(k := x # lists c k)"
    and log': "\<And>y. status_writes (''job:'' @ y) (oplog c') =
                 status_writes (''job:'' @ y) (oplog c) @ (if y = x then [''queued''] else [])"
  shows "store_inv c'"
proof -
  have nl: "x \<notin> set (lists c k')" for k'
    by (rule store_inv_not_listed[OF inv new])
  have i1: "distinct (lists c k')" for k'
    using inv unfolding store_inv_def by blast
  have i2: "x' \<in> set (lists c k1) \<Longrightarrow> x' \<in> set (lists c k2) \<Longrightarrow> k1 = k2" for x' k1 k2
    using inv unfolding store_inv_def by blast
  have i3: "x' \<in> set (lists c k1) \<Longrightarrow> status_writes (''job:'' @ x') (oplog c) = [''queued'']"
    for x' k1
    using inv unfolding store_inv_def by blast
  have i4: "case kv c (''job:'' @ y) of
            None \<Rightarrow> status_writes (''job:'' @ y) (oplog c) = []
          | Some j \<Rightarrow>
              status_writes (''job:'' @ y) (oplog c) \<in>
                {[''queued''], [''queued'', ''processing'', ''completed''],
                 [''queued'', ''processing'', ''failed'']} \<and>
              status j = last (status_writes (''job:'' @ y) (oplog c))" for y
    using inv unfolding store_inv_def by blast
  have h0: "status_writes (''job:'' @ x) (oplog c) = []"
    using i4[of x] new by simp
  have mem: "x' \<in> set (lists c' k1) \<longleftrightarrow> (x' = x \<and> k1 = k) \<or> x' \<in> set (lists c k1)" for x' k1
    by (auto simp: l')
  have n1: "distinct (lists c' k')" for k'
    by (simp add: l' i1 nl)
  have n2: "k1 = k2" if "x' \<in> set (lists c' k1)" "x' \<in> set (lists c' k2)" for x' k1 k2
    using that nl i2 unfolding mem by blast
  have n3: "status_writes (''job:'' @ x') (oplog c') = [''queued'']"
    if "x' \<in> set (lists c' k1)" for x' k1
  proof (cases "x' = x")
    case True
    then show ?thesis using log'[of x] h0 by simp
  next
    case False
    then have "x' \<in> set (lists c k1)" using that unfolding mem by blast
    then show ?thesis using False log'[of x'] i3[of x' k1] by simp
  qed
  have n4: "case kv c' (''job:'' @ y) of
            None \<Rightarrow> status_writes (''job:'' @ y) (oplog c') = []
          | Some j \<Rightarrow>
              status_writes (''job:'' @ y) (oplog c') \<in>
                {[''queued''], [''queued'', ''processing'', ''completed''],
                 [''queued'', ''processing'', ''failed'']} \<and>
              status j = last (status_writes (''job:'' @ y) (oplog c'))" for y
  proof (cases "y = x")
    case True
    then show ?thesis using log'[of x] h0 st by (simp add: kv')
  next
    case False
    then show ?thesis using i4[of y] log'[of y] by (simp add: kv' split: option.splits)
  qed
  show ?thesis
    unfolding store_inv_def using n1 n2 n3 n4 by blast
qed

lemma store_inv_pop:
  assumes inv: "store_inv c"
    and kv': "kv c' = kv c"
    and l': "lists c' = (lists c)(k := butlast (lists c k))"
    and log': "\<And>key. status_writes key (oplog c') = status_writes key (oplog c)"
  shows "store_inv c'"
proof -
  have i1: "distinct (lists c k')" for k'
    using inv unfolding store_inv_def by blast
  have i2: "x' \<in> set (lists c k1) \<Longrightarrow> x' \<in> set (lists c k2) \<Longrightarrow> k1 = k2" for x' k1 k2
    using inv unfolding store_inv_def by blast
  have i3: "x' \<in> set (lists c k1) \<Longrightarrow> status_writes (''job:'' @ x') (oplog c) = [''queued'']"
    for x' k1
    using inv unfolding store_inv_def by blast
  have i4: "case kv c (''job:'' @ y) of
            None \<Rightarrow> status_writes (''job:'' @ y) (oplog c) = []
          | Some j \<Rightarrow>
              status_writes (''job:'' @ y) (oplog c) \<in>
                {[''queued''], [''queued'', ''processing'', ''completed''],
                 [''queued'', ''processing'', ''failed'']} \<and>
              status j = last (status_writes (''job:'' @ y) (oplog c))" for y
    using inv unfolding store_inv_def by blast
  have sub: "x' \<in> set (lists c' k1) \<Longrightarrow> x' \<in> set (lists c k1)" for x' k1
    by (auto simp: l' dest: in_set_butlastD split: if_splits)
  have n1: "distinct (lists c' k')" for k'
    by (simp add: l' i1 distinct_butlast)
  have n2: "k1 = k2" if "x' \<in> set (lists c' k1)" "x' \<in> set (lists c' k2)" for x' k1 k2
    using that sub i2 by blast
  have n3: "status_writes (''job:'' @ x') (oplog c') = [''queued'']"
    if "x' \<in> set (lists c' k1)" for x' k1
    using i3[OF sub[OF that]] log'[of "''job:'' @ x'"] by simp
  have n4: "case kv c' (''job:'' @ y) of
            None \<Rightarrow> status_writes (''job:'' @ y) (oplog c') = []
          | Some j \<Rightarrow>
              status_writes (''job:'' @ y) (oplog c') \<in>
                {[''queued''], [''queued'', ''processing'', ''completed''],
                 [''queued'', ''processing'', ''failed'']} \<and>
              status j = last (status_writes (''job:'' @ y) (oplog c'))" for y
    using i4[of y] log'[of "''job:'' @ y"] by (simp add: kv' split: option.splits)
  show ?thesis
    unfolding store_inv_def using n1 n2 n3 n4 by blast
qed

lemma store_inv_work:
  assumes inv: "store_inv c"
    and ne: "lists c k \<noteq> []"
    and kvx: "kv c' (''job:'' @ last (lists c k)) = Some j2"
    and kvo: "\<And>y. y \<noteq> last (lists c k) \<Longrightarrow> kv c' (''job:'' @ y) = kv c (''job:'' @ y)"
    and l': "lists c' = (lists c)(k := butlast (lists c k))"
    and st: "status j2 = ''completed'' \<or> status j2 = ''failed''"
    and log': "\<And>y. status_writes (''job:'' @ y) (oplog c') =
                 status_writes (''job:'' @ y) (oplog c) @
                   (if y = last (lists c k) then [''processing'', status j2] else [])"
  shows "store_inv c'"
proof -
  define x where "x = last (lists c k)"
  have i1: "distinct (lists c k')" for k'
    using inv unfolding store_inv_def by blast
  have i2: "x' \<in> set (lists c k1) \<Longrightarrow> x' \<in> set (lists c k2) \<Longrightarrow> k1 = k2" for x' k1 k2
    using inv unfolding store_inv_def by blast
  have i3: "x' \<in> set (lists c k1) \<Longrightarrow> status_writes (''job:'' @ x') (oplog c) = [''queued'']"
    for x' k1
    using inv unfolding store_inv_def by blast
  have i4: "case kv c (''job:'' @ y) of
            None \<Rightarrow> status_writes (''job:'' @ y) (oplog c) = []
          | Some j \<Rightarrow>
              status_writes (''job:'' @ y) (oplog c) \<in>
                {[''queued''], [''queued'', ''processing'', ''completed''],
                 [''queued'', ''processing'', ''failed'']} \<and>
              status j = last (status_writes (''job:'' @ y) (oplog c))" for y
    using inv unfolding store_inv_def by blast
  have xin: "x \<in> set (lists c k)"
    using ne by (simp add: x_def)
  have hx: "status_writes (''job:'' @ x) (oplog c) = [''queued'']"
    by (rule i3[OF xin])
  have split: "lists c k = butlast (lists c k) @ [x]"
    using ne by (simp add: x_def)
  have "distinct (butlast (lists c k) @ [x])"
    using i1[of k] split by simp
  then have xout: "x \<notin> set (butlast (lists c k))"
    by simp
  have sub: "x' \<in> set (lists c' k1) \<Longrightarrow> x' \<in> set (lists c k1)" for x' k1
    by (auto simp: l' dest: in_set_butlastD split: if_splits)
  have gone: "x \<notin> set (lists c' k1)" for k1
  proof
    assume a: "x \<in> set (lists c' k1)"
    then have "x \<in> set (lists c k1)" by (rule sub)
    then have "k1 = k" using xin i2 by blast
    then show False using a xout by (simp add: l')
  qed
  have n1: "distinct (lists c' k')" for k'
    by (simp add: l' i1 distinct_butlast)
  have n2: "k1 = k2" if "x' \<in> set (lists c' k1)" "x' \<in> set (lists c' k2)" for x' k1 k2
    using that sub i2 by blast
  have n3: "status_writes (''job:'' @ x') (oplog c') = [''queued'']"
    if "x' \<in> set (lists c' k1)" for x' k1
  proof -
    have "x' \<noteq> x" using that gone by blast
    then show ?thesis using log'[of x'] i3[OF sub[OF that]] by (simp add: x_def)
  qed
  have n4: "case kv c' (''job:'' @ y) of
            None \<Rightarrow> status_writes (''job:'' @ y) (oplog c') = []
          | Some j \<Rightarrow>
              status_writes (''job:'' @ y) (oplog c') \<in>
                {[''queued''], [''queued'', ''processing'', ''completed''],
                 [''queued'', ''processing'', ''failed'']} \<and>
              status j = last (status_writes (''job:'' @ y) (oplog c'))" for y
  proof (cases "y = x")
    case True
    have "kv c' (''job:'' @ x) = Some j2" using kvx by (simp add: x_def)
    moreover have "status_writes (''job:'' @ x) (oplog c') = [''queued'', ''processing'', status j2]"
      using hx log'[of x] by (simp add: x_def)
    ultimately show ?thesis using st True by auto
  next
    case False
    then have "kv c' (''job:'' @ y) = kv c (''job:'' @ y)"
      using kvo by (simp add: x_def)
    moreover have "status_writes (''job:'' @ y) (oplog c') = status_writes (''job:'' @ y) (oplog c)"
      using False log'[of y] by (simp add: x_def)
    ultimately show ?thesis using i4[of y] by (simp split: option.splits)
  qed
  show ?thesis
    unfolding store_inv_def using n1 n2 n3 n4 by blast
qed

lemma store_inv_empty: "store_inv empty_store"
  by (simp add: store_inv_def empty_store_def)

lemma perform_store_inv:
  assumes conn: "client (redis qm) = Some c"
    and inv: "store_inv c"
    and ok: "enqueues_new_id call qm"
  shows "\<exists>c'. client (redis (perform_queue_call call qm)) = Some c' \<and> store_inv c'"
proof (cases call)
  case (AddJob clock q d arg)
  obtain now_ms tc tu where clock: "clock = (now_ms, tc, tu)"
    by (cases clock) auto
  show ?thesis
  proof (cases d)
    case (Unserialisable e)
    then show ?thesis
      using conn inv AddJob by (simp add: add_job_unserialisable)
  next
    case (Json v)
    define x where "x = resolve_id now_ms q arg"
    define j where "j = \<lparr>job_id = x, queue = q, data = v, status = ''queued'',
                          created_at = tc, updated_at = tu, result = None\<rparr>"
    define c' where "c' = snd (client_lpush (snd (client_set c (''job:'' @ x) j None))
                                 (''queue:'' @ q) x)"
    have new: "kv c (''job:'' @ x) = None"
      using ok conn AddJob clock by (simp add: x_def)
    have res: "client (redis (perform_queue_call call qm)) = Some c'"
      using AddJob clock Json
      by (simp add: add_job_connected[OF conn] Let_def x_def j_def c'_def)
    have "store_inv c'"
    proof (rule store_inv_push[OF inv new, where j = j and k = "''queue:'' @ q"])
      show "status j = ''queued''" by (simp add: j_def)
      show "kv c' = (kv c)(''job:'' @ x \<mapsto> j)"
        by (simp add: c'_def client_lpush_def client_set_def)
      show "lists c' = (lists c)(''queue:'' @ q := x # lists c (''queue:'' @ q))"
        by (simp add: c'_def client_lpush_def client_set_def)
      show "status_writes (''job:'' @ y) (oplog c') =
              status_writes (''job:'' @ y) (oplog c) @ (if y = x then [''queued''] else [])" for y
        by (auto simp add: c'_def client_lpush_def client_set_def status_writes_append j_def)
    qed
    then show ?thesis using res by blast
  qed
next
  case (UpdateJobStatus now jid st res)
  then show ?thesis using ok by simp
next
  case (RegisterHandler q h)
  then show ?thesis using conn inv by (simp add: register_handler_def)
next
  case (WorkerPass now q)
  obtain c' where res: "client (redis (snd (process_iteration now q qm))) = Some c'"
    and l': "lists c' = (lists c)(''queue:'' @ q := butlast (lists c (''queue:'' @ q)))"
    and alt: "(kv c' = kv c \<and> (\<forall>key. status_writes key (oplog c') = status_writes key (oplog c))) \<or>
       (\<exists>j2. lists c (''queue:'' @ q) \<noteq> [] \<and>
          kv c' (''job:'' @ last (lists c (''queue:'' @ q))) = Some j2 \<and>
          (\<forall>key. key \<noteq> ''job:'' @ last (lists c (''queue:'' @ q)) \<longrightarrow> kv c' key = kv c key) \<and>
          (status j2 = ''completed'' \<or> status j2 = ''failed'') \<and>
          (\<forall>key. status_writes key (oplog c') =
             status_writes key (oplog c) @
               (if key = ''job:'' @ last (lists c (''queue:'' @ q))
                then [''processing'', status j2] else [])))"
    using iteration_store[OF conn, of now q] by blast
  have "store_inv c'"
    using alt
  proof
    assume a: "kv c' = kv c \<and> (\<forall>key. status_writes key (oplog c') = status_writes key (oplog c))"
    show ?thesis
      by (rule store_inv_pop[OF inv _ l']) (use a in simp_all)
  next
    assume "\<exists>j2. lists c (''queue:'' @ q) \<noteq> [] \<and>
          kv c' (''job:'' @ last (lists c (''queue:'' @ q))) = Some j2 \<and>
          (\<forall>key. key \<noteq> ''job:'' @ last (lists c (''queue:'' @ q)) \<longrightarrow> kv c' key = kv c key) \<and>
          (status j2 = ''completed'' \<or> status j2 = ''failed'') \<and>
          (\<forall>key. status_writes key (oplog c') =
             status_writes key (oplog c) @
               (if key = ''job:'' @ last (lists c (''queue:'' @ q))
                then [''processing'', status j2] else []))"
    then obtain j2 where ne: "lists c (''queue:'' @ q) \<noteq> []"
      and kvx: "kv c' (''job:'' @ last (lists c (''queue:'' @ q))) = Some j2"
      and kvo: "\<forall>key. key \<noteq> ''job:'' @ last (lists c (''queue:'' @ q)) \<longrightarrow> kv c' key = kv c key"
      and st: "status j2 = ''completed'' \<or> status j2 = ''failed''"
      and lg: "\<forall>key. status_writes key (oplog c') =
             status_writes key (oplog c) @
               (if key = ''job:'' @ last (lists c (''queue:'' @ q))
                then [''processing'', status j2] else [])"
      by blast
    show ?thesis
    proof (rule store_inv_work[OF inv ne kvx _ l' st])
      show "kv c' (''job:'' @ y) = kv c (''job:'' @ y)" if "y \<noteq> last (lists c (''queue:'' @ q))" for y
        using kvo that by simp
      show "status_writes (''job:'' @ y) (oplog c') =
                 status_writes (''job:'' @ y) (oplog c) @
                   (if y = last (lists c (''queue:'' @ q)) then [''processing'', status j2] else [])" for y
        using lg by simp
    qed
  qed
  then show ?thesis using res WorkerPass by simp
qed

lemma run_store_inv:
  assumes "client (redis qm) = Some c" "store_inv c" "worker_owned_run calls qm"
  shows "\<exists>c'. client (redis (run_queue_calls calls qm)) = Some c' \<and> store_inv c'"
  using assms
proof (induction calls arbitrary: qm c)
  case Nil
  then show ?case by simp
next
  case (Cons call calls)
  from Cons.prems have ok: "enqueues_new_id call qm"
    and rest: "worker_owned_run calls (perform_queue_call call qm)"
    by simp_all
  obtain c1 where c1: "client (redis (perform_queue_call call qm)) = Some c1" "store_inv c1"
    using perform_store_inv[OF Cons.prems(1) Cons.prems(2) ok] by blast
  show ?case
    using Cons.IH[OF c1 rest] by simp
qed

lemma store_inv_history:
  assumes conn: "client (redis qm) = Some c" and inv: "store_inv c"
  shows "status_history qm jid \<in>
           {[], [''queued''], [''queued'', ''processing'', ''completed''],
            [''queued'', ''processing'', ''failed'']} \<and>
         persisted_status qm jid =
           (if status_history qm jid = [] then None else Some (last (status_history qm jid)))"
proof -
  have i4: "case kv c (''job:'' @ jid) of
            None \<Rightarrow> status_writes (''job:'' @ jid) (oplog c) = []
          | Some j \<Rightarrow>
              status_writes (''job:'' @ jid) (oplog c) \<in>
                {[''queued''], [''queued'', ''processing'', ''completed''],
                 [''queued'', ''processing'', ''failed'']} \<and>
              status j = last (status_writes (''job:'' @ jid) (oplog c))"
    using inv unfolding store_inv_def by blast
  show ?thesis
  proof (cases "kv c (''job:'' @ jid)")
    case None
    then show ?thesis
      using i4 conn
      by (simp add: status_history_def persisted_status_def get_job_def RedisManager_get_def
          client_get_def)
  next
    case (Some j)
    then show ?thesis
      using i4 conn
      by (auto simp add: status_history_def persisted_status_def get_job_def RedisManager_get_def
          client_get_def)
  qed
qed

text \<open>
  C1, as the code has it. Take a manager on a store that holds nothing yet and any
  run of calls of \<open>add_job\<close>, \<open>register_handler\<close> and passes of the worker in which
  no \<open>add_job\<close> resolves to an id that already has a record. Then, after the run,
  the statuses written to any job's key are none, \<open>queued\<close> alone, or \<open>queued\<close>,
  \<open>processing\<close> and then \<open>completed\<close> or \<open>failed\<close>, in this order; and \<open>get_job\<close>
  shows the last status written. A prefix of such a run is such a run, so this holds
  at every moment of it: the status only moves forward and never comes back to
  \<open>queued\<close>.
\<close>

theorem status_moves_forward:
  assumes fresh: "client (redis qm) = Some empty_store"
    and run: "worker_owned_run calls qm"
  shows "status_history (run_queue_calls calls qm) jid \<in>
           {[], [''queued''], [''queued'', ''processing'', ''completed''],
            [''queued'', ''processing'', ''failed'']} \<and>
         persisted_status (run_queue_calls calls qm) jid =
           (if status_history (run_queue_calls calls qm) jid = [] then None
            else Some (last (status_history (run_queue_calls calls qm) jid)))"
proof -
  obtain c' where c': "client (redis (run_queue_calls calls qm)) = Some c'" "store_inv c'"
    using run_store_inv[OF fresh store_inv_empty run] by blast
  show ?thesis
    by (rule store_inv_history[OF c'])
qed

theorem status_moves_forward_witness:
  "worker_owned_run
     [AddJob (0, ''T0'', ''T0'') ''q'' (Json (JObj [(''x'', JNum 1)])) (Some ''a''),
      RegisterHandler ''q'' datetime_handler,
      WorkerPass tick ''q'',
      AddJob (5, ''T5'', ''T5'') ''q'' (Json (JObj [(''x'', JNum 2)])) None,
      WorkerPass tick ''q'']
     (QueueManager_init connected_manager) \<and>
   status_history
     (run_queue_calls
        [AddJob (0, ''T0'', ''T0'') ''q'' (Json (JObj [(''x'', JNum 1)])) (Some ''a''),
         RegisterHandler ''q'' datetime_handler,
         WorkerPass tick ''q'',
         AddJob (5, ''T5'', ''T5'') ''q'' (Json (JObj [(''x'', JNum 2)])) None,
         WorkerPass tick ''q'']
        (QueueManager_init connected_manager)) ''a''
     = [''queued'', ''processing'', ''failed''] \<and>
   persisted_status
     (run_queue_calls
        [AddJob (0, ''T0'', ''T0'') ''q'' (Json (JObj [(''x'', JNum 1)])) (Some ''a''),
         RegisterHandler ''q'' datetime_handler,
         WorkerPass tick ''q'',
         AddJob (5, ''T5'', ''T5'') ''q'' (Json (JObj [(''x'', JNum 2)])) None,
         WorkerPass tick ''q'']
        (QueueManager_init connected_manager)) ''a''
     = Some ''failed''"
proof -
  define calls where "calls =
     [AddJob (0, ''T0'', ''T0'') ''q'' (Json (JObj [(''x'', JNum 1)])) (Some ''a''),
      RegisterHandler ''q'' datetime_handler,
      WorkerPass tick ''q'',
      AddJob (5, ''T5'', ''T5'') ''q'' (Json (JObj [(''x'', JNum 2)])) None,
      WorkerPass tick ''q'']"
  have conn: "client (redis (QueueManager_init connected_manager)) = Some empty_store"
    by (simp add: QueueManager_init_def connected_manager_def)
  have ok: "worker_owned_run calls (QueueManager_init connected_manager)"
    unfolding calls_def
    by (simp add: QueueManager_init_def connected_manager_def empty_store_def add_job_def
        resolve_id_def str_int_def str_nat.simps digit_def RedisManager_set_def
        RedisManager_get_def with_client_def client_set_def client_get_def client_lpush_def
        client_rpop_def process_iteration_def run_handler_def register_handler_def get_job_def
        update_job_status_def datetime_handler_def a_datetime_def Let_def)
  have h: "status_history (run_queue_calls calls (QueueManager_init connected_manager)) ''a''
      = [''queued'', ''processing'', ''failed'']"
    unfolding calls_def
    by (simp add: QueueManager_init_def connected_manager_def empty_store_def add_job_def
        resolve_id_def str_int_def str_nat.simps digit_def RedisManager_set_def
        RedisManager_get_def with_client_def client_set_def client_get_def client_lpush_def
        client_rpop_def process_iteration_def run_handler_def register_handler_def get_job_def
        update_job_status_def datetime_handler_def a_datetime_def status_history_def Let_def)
  have "persisted_status (run_queue_calls calls (QueueManager_init connected_manager)) ''a''
      = Some ''failed''"
    using status_moves_forward[OF conn ok, of "''a''"] by (simp add: h)
  then show ?thesis
    using ok h unfolding calls_def by blast
qed

text \<open>
  C1, as the specification states it, fails. A job that is enqueued, worked to
  \<open>failed\<close> and enqueued again under its id is back at \<open>queued\<close>; and
  \<open>update_job_status\<close> moves a \<open>failed\<close> job back to \<open>processing\<close>.
\<close>

theorem status_moves_backward:
  "status_history
     (run_queue_calls
        [AddJob (0, ''T0'', ''T0'') ''q'' (Json (JObj [(''x'', JNum 1)])) (Some ''a''),
         WorkerPass tick ''q'',
         AddJob (5, ''T5'', ''T5'') ''q'' (Json (JObj [(''x'', JNum 1)])) (Some ''a'')]
        (QueueManager_init connected_manager)) ''a''
     = [''queued'', ''processing'', ''failed'', ''queued''] \<and>
   status_history
     (run_queue_calls
        [AddJob (0, ''T0'', ''T0'') ''q'' (Json (JObj [(''x'', JNum 1)])) (Some ''a''),
         WorkerPass tick ''q'',
         UpdateJobStatus ''T9'' ''a'' ''processing'' (Json JNull)]
        (QueueManager_init connected_manager)) ''a''
     = [''queued'', ''processing'', ''failed'', ''processing'']"
  by (simp add: QueueManager_init_def connected_manager_def empty_store_def add_job_def
      json_dumps_def resolve_id_def RedisManager_set_def RedisManager_get_def with_client_def
      client_set_def client_get_def client_lpush_def client_rpop_def process_iteration_def
      get_job_def update_job_status_def status_history_def Let_def)

subsection \<open>Enqueueing the same id twice\<close>

text \<open>
  C2. Two calls of \<open>add_job\<close> with the same non-empty id, each with a payload that
  \<open>json.dumps\<close> accepts, both return it, with no error. The record in the store and in the mirror is the one of the second call,
  and the queue list holds the id twice, in front of what it held. One pop takes
  one element from the tail and leaves an occurrence of the id in the list. With a
  queue that was empty before, two passes of the worker both pop the id and both
  work the job: its status goes through \<open>processing\<close> and the final status twice.
\<close>

theorem duplicate_id_overwrites_and_requeues:
  assumes conn: "client (redis qm) = Some c"
    and ne: "jid \<noteq> []"
  shows "case add_job (ms1, tc1, tu1) qm queue_name (Json data1) (Some jid) of
      Inl e \<Rightarrow> False
    | Inr (id1, qm1) \<Rightarrow>
        id1 = jid \<and>
        (case add_job (ms2, tc2, tu2) qm1 queue_name (Json data2) (Some jid) of
           Inl e \<Rightarrow> False
         | Inr (id2, qm2) \<Rightarrow>
             id2 = jid \<and>
             jobs qm2 jid =
               Some \<lparr>job_id = jid, queue = queue_name, data = data2, status = ''queued'',
                     created_at = tc2, updated_at = tu2, result = None\<rparr> \<and>
             (case client (redis qm2) of
                None \<Rightarrow> False
              | Some c2 \<Rightarrow>
                  kv c2 (''job:'' @ jid) =
                    Some \<lparr>job_id = jid, queue = queue_name, data = data2, status = ''queued'',
                          created_at = tc2, updated_at = tu2, result = None\<rparr> \<and>
                  lists c2 (''queue:'' @ queue_name) =
                    jid # jid # lists c (''queue:'' @ queue_name) \<and>
                  (case client_rpop c2 (''queue:'' @ queue_name) of
                     (popped, c3) \<Rightarrow>
                       popped = Some (last (jid # lists c (''queue:'' @ queue_name))) \<and>
                       lists c3 (''queue:'' @ queue_name) =
                         jid # butlast (jid # lists c (''queue:'' @ queue_name))) \<and>
                  (lists c (''queue:'' @ queue_name) = [] \<longrightarrow>
                     fst (process_queue [now1, now2] queue_name qm2) = [Processed, Processed] \<and>
                     status_history (snd (process_queue [now1, now2] queue_name qm2)) jid =
                       status_history qm2 jid @
                         (let fin = (case handlers qm queue_name of
                                       None \<Rightarrow> ''failed''
                                     | Some h \<Rightarrow>
                                         (case h data2 of
                                            Inl d \<Rightarrow> ''failed''
                                          | Inr (Json r) \<Rightarrow> ''completed''
                                          | Inr (Unserialisable e) \<Rightarrow> ''failed''))
                          in [''processing'', fin, ''processing'', fin]))))"
proof -
  define J1 where "J1 = \<lparr>job_id = jid, queue = queue_name, data = data1, status = ''queued'',
                     created_at = tc1, updated_at = tu1, result = None\<rparr>"
  define J2 where "J2 = \<lparr>job_id = jid, queue = queue_name, data = data2, status = ''queued'',
                     created_at = tc2, updated_at = tu2, result = None\<rparr>"
  define C1 where "C1 = snd (client_lpush (snd (client_set c (''job:'' @ jid) J1 None))
                          (''queue:'' @ queue_name) jid)"
  define C2 where "C2 = snd (client_lpush (snd (client_set C1 (''job:'' @ jid) J2 None))
                          (''queue:'' @ queue_name) jid)"
  define Q1 where "Q1 = qm\<lparr>redis := (redis qm)\<lparr>client := Some C1\<rparr>, jobs := (jobs qm)(jid \<mapsto> J1)\<rparr>"
  define Q2 where "Q2 = Q1\<lparr>redis := (redis Q1)\<lparr>client := Some C2\<rparr>, jobs := (jobs Q1)(jid \<mapsto> J2)\<rparr>"
  have r: "resolve_id ms queue_name (Some jid) = jid" for ms
    using ne by (simp add: resolve_id_def)
  have a1: "add_job (ms1, tc1, tu1) qm queue_name (Json data1) (Some jid) = Inr (jid, Q1)"
    by (simp add: add_job_connected[OF conn] r Let_def Q1_def C1_def J1_def)
  have conn1: "client (redis Q1) = Some C1" by (simp add: Q1_def)
  have a2: "add_job (ms2, tc2, tu2) Q1 queue_name (Json data2) (Some jid) = Inr (jid, Q2)"
    by (simp add: add_job_connected[OF conn1] r Let_def Q2_def C2_def J2_def)
  have conn2: "client (redis Q2) = Some C2" by (simp add: Q2_def)
  have jobs2: "jobs Q2 jid = Some J2" by (simp add: Q2_def)
  have kv2: "kv C2 (''job:'' @ jid) = Some J2"
    by (simp add: C2_def client_lpush_def client_set_def)
  have l2: "lists C2 (''queue:'' @ queue_name) = jid # jid # lists c (''queue:'' @ queue_name)"
    by (simp add: C2_def C1_def client_lpush_def client_set_def)
  have h2: "handlers Q2 = handlers qm" by (simp add: Q2_def Q1_def)
  have pop: "case client_rpop C2 (''queue:'' @ queue_name) of
                     (popped, c3) \<Rightarrow>
                       popped = Some (last (jid # lists c (''queue:'' @ queue_name))) \<and>
                       lists c3 (''queue:'' @ queue_name) =
                         jid # butlast (jid # lists c (''queue:'' @ queue_name))"
    using l2 by (simp add: client_rpop_def)
  have twice: "fst (process_queue [now1, now2] queue_name Q2) = [Processed, Processed] \<and>
       status_history (snd (process_queue [now1, now2] queue_name Q2)) jid =
         status_history Q2 jid @
           (let fin = (case handlers qm queue_name of
                         None \<Rightarrow> ''failed''
                       | Some h \<Rightarrow>
                           (case h data2 of
                              Inl d \<Rightarrow> ''failed''
                            | Inr (Json r) \<Rightarrow> ''completed''
                            | Inr (Unserialisable e) \<Rightarrow> ''failed''))
            in [''processing'', fin, ''processing'', fin])"
    if e: "lists c (''queue:'' @ queue_name) = []"
  proof -
    define P1 where "P1 = snd (client_rpop C2 (''queue:'' @ queue_name))"
    have pop1: "client_rpop C2 (''queue:'' @ queue_name) = (Some jid, P1)"
      using l2 e by (simp add: client_rpop_def P1_def)
    have lP1: "lists P1 (''queue:'' @ queue_name) = [jid]"
      using l2 e by (simp add: P1_def client_rpop_def)
    define fin where "fin = (case handlers qm queue_name of
                         None \<Rightarrow> ''failed''
                       | Some h \<Rightarrow>
                           (case h data2 of
                              Inl d \<Rightarrow> ''failed''
                            | Inr (Json r) \<Rightarrow> ''completed''
                            | Inr (Unserialisable e) \<Rightarrow> ''failed''))"
    have dJ2: "data J2 = data2" by (simp add: J2_def)
    obtain Q3 C3 j3 where it1: "process_iteration now1 queue_name Q2 = (Processed, Q3)"
      and conn3: "client (redis Q3) = Some C3"
      and kv3: "kv C3 (''job:'' @ jid) = Some j3" and d3: "data j3 = data2"
      and l3: "lists C3 = lists P1" and h3: "handlers Q3 = handlers qm"
      and log3: "status_writes (''job:'' @ jid) (oplog C3) =
                   status_writes (''job:'' @ jid) (oplog C2) @ [''processing'', fin]"
      using iteration_claimed_props[OF conn2 pop1 ne kv2, of now1] h2 dJ2
      unfolding fin_def by auto
    define P2 where "P2 = snd (client_rpop C3 (''queue:'' @ queue_name))"
    have pop2: "client_rpop C3 (''queue:'' @ queue_name) = (Some jid, P2)"
      using l3 lP1 by (simp add: client_rpop_def P2_def)
    obtain Q4 C4 where it2: "process_iteration now2 queue_name Q3 = (Processed, Q4)"
      and conn4: "client (redis Q4) = Some C4"
      and log4: "status_writes (''job:'' @ jid) (oplog C4) =
                   status_writes (''job:'' @ jid) (oplog C3) @ [''processing'', fin]"
      using iteration_claimed_props[OF conn3 pop2 ne kv3, of now2] h3 d3
      unfolding fin_def by auto
    have pq: "process_queue [now1, now2] queue_name Q2 = ([Processed, Processed], Q4)"
      by (simp add: it1 it2)
    have sh2: "status_history Q2 jid = status_writes (''job:'' @ jid) (oplog C2)"
      using conn2 by (simp add: status_history_def)
    have sh4: "status_history Q4 jid = status_writes (''job:'' @ jid) (oplog C4)"
      using conn4 by (simp add: status_history_def)
    show ?thesis
      using pq log4 log3 sh2 sh4 by (simp add: fin_def Let_def)
  qed
  show ?thesis
    using a1 a2 jobs2 kv2 l2 pop twice conn2
    by (simp add: J2_def)
qed

theorem duplicate_id_overwrites_and_requeues_witness:
  "case add_job (0, ''T0'', ''T0'') (QueueManager_init connected_manager) ''q'' (Json (JNum 1))
        (Some ''a'') of
      Inl e \<Rightarrow> False
    | Inr (id1, qm1) \<Rightarrow>
        id1 = ''a'' \<and>
        (case add_job (5, ''T5'', ''T5'') qm1 ''q'' (Json (JNum 2)) (Some ''a'') of
           Inl e \<Rightarrow> False
         | Inr (id2, qm2) \<Rightarrow>
             id2 = ''a'' \<and>
             jobs qm2 ''a'' =
               Some \<lparr>job_id = ''a'', queue = ''q'', data = JNum 2, status = ''queued'',
                     created_at = ''T5'', updated_at = ''T5'', result = None\<rparr> \<and>
             (case client (redis qm2) of
                None \<Rightarrow> False
              | Some c2 \<Rightarrow>
                  kv c2 ''job:a'' =
                    Some \<lparr>job_id = ''a'', queue = ''q'', data = JNum 2, status = ''queued'',
                          created_at = ''T5'', updated_at = ''T5'', result = None\<rparr> \<and>
                  lists c2 ''queue:q'' = [''a'', ''a''] \<and>
                  (case client_rpop c2 ''queue:q'' of
                     (popped, c3) \<Rightarrow> popped = Some ''a'' \<and> lists c3 ''queue:q'' = [''a'']) \<and>
                  fst (process_queue [tick, tick] ''q'' qm2) = [Processed, Processed] \<and>
                  status_history (snd (process_queue [tick, tick] ''q'' qm2)) ''a'' =
                    status_history qm2 ''a'' @
                      [''processing'', ''failed'', ''processing'', ''failed'']))"
proof -
  have conn: "client (redis (QueueManager_init connected_manager)) = Some empty_store"
    by (simp add: QueueManager_init_def connected_manager_def)
  have ne: "''a'' \<noteq> []" by simp
  have e: "lists empty_store (''queue:'' @ ''q'') = []"
    by (simp add: empty_store_def)
  have h: "handlers (QueueManager_init connected_manager) ''q'' = None"
    by (simp add: QueueManager_init_def)
  have r: "resolve_id ms ''q'' (Some ''a'') = ''a''" for ms
    by (simp add: resolve_id_def)
  obtain Q1 where a1: "add_job (0, ''T0'', ''T0'') (QueueManager_init connected_manager) ''q''
      (Json (JNum 1)) (Some ''a'') = Inr (''a'', Q1)" and "\<exists>C1. client (redis Q1) = Some C1"
    by (simp add: add_job_connected[OF conn] r Let_def)
  then obtain C1 where conn1: "client (redis Q1) = Some C1" by blast
  obtain Q2 where a2: "add_job (5, ''T5'', ''T5'') Q1 ''q'' (Json (JNum 2)) (Some ''a'')
      = Inr (''a'', Q2)"
    and "\<exists>C2. client (redis Q2) = Some C2"
    by (simp add: add_job_connected[OF conn1] r Let_def)
  then obtain C2 where conn2: "client (redis Q2) = Some C2" by blast
  show ?thesis
    using duplicate_id_overwrites_and_requeues[OF conn ne, where ?ms1.0 = 0 and ?tc1.0 = "''T0''"
        and ?tu1.0 = "''T0''" and queue_name = "''q''" and ?data1.0 = "JNum 1" and ?ms2.0 = 5
        and ?tc2.0 = "''T5''" and ?tu2.0 = "''T5''" and ?data2.0 = "JNum 2" and ?now1.0 = tick
        and ?now2.0 = tick] e h
    by (simp add: a1 a2 conn2 Let_def)
qed


section \<open>The connection registry: properties\<close>

subsection \<open>Auxiliary facts\<close>

lemma remove_from_users_key:
  "(u, cs') \<in> set (remove_from_users cid ucs) \<Longrightarrow> u \<in> fst ` set ucs"
  by (induction ucs) (force split: if_splits)+

lemma remove_from_users_keys:
  "fst ` set (remove_from_users cid ucs) \<subseteq> fst ` set ucs"
  using remove_from_users_key by fastforce

lemma remove_from_users_distinct:
  "distinct (map fst ucs) \<Longrightarrow> distinct (map fst (remove_from_users cid ucs))"
proof (induction ucs)
  case Nil
  then show ?case by simp
next
  case (Cons p ucs)
  obtain u cs where p: "p = (u, cs)" by (cases p)
  have "u \<notin> fst ` set (remove_from_users cid ucs)"
    using Cons.prems remove_from_users_keys[of cid ucs] by (auto simp: p)
  then show ?case using Cons by (auto simp: p)
qed

lemma map_of_untouched:
  assumes "\<forall>(v, ds) \<in> set rest. cid \<notin> set ds \<and> ds \<noteq> []"
  shows "(case map_of rest u of
            None \<Rightarrow> None
          | Some cs \<Rightarrow> if removeAll cid cs = [] then None else Some (removeAll cid cs))
         = map_of rest u"
proof (cases "map_of rest u")
  case None
  then show ?thesis by simp
next
  case (Some cs)
  then have "(u, cs) \<in> set rest" by (rule map_of_SomeD)
  with assms have "cid \<notin> set cs" "cs \<noteq> []" by auto
  then show ?thesis using Some by simp
qed

lemma map_of_remove_from_users:
  assumes "distinct (map fst ucs)"
    and "\<forall>(u, cs) \<in> set ucs. cs \<noteq> []"
    and "\<forall>(u, cs) \<in> set ucs. \<forall>(v, ds) \<in> set ucs. u \<noteq> v \<longrightarrow> set cs \<inter> set ds = {}"
  shows "map_of (remove_from_users cid ucs) u =
     (case map_of ucs u of
        None \<Rightarrow> None
      | Some cs \<Rightarrow> if removeAll cid cs = [] then None else Some (removeAll cid cs))"
  using assms
proof (induction ucs)
  case Nil
  then show ?case by simp
next
  case (Cons p ucs)
  obtain u0 cs0 where p: "p = (u0, cs0)" by (cases p)
  have d: "distinct (map fst ucs)" and u0: "u0 \<notin> fst ` set ucs"
    using Cons.prems(1) by (auto simp: p)
  have ne: "\<forall>(u, cs) \<in> set ucs. cs \<noteq> []" and ne0: "cs0 \<noteq> []"
    using Cons.prems(2) by (auto simp: p)
  have dj: "\<forall>(u, cs) \<in> set ucs. \<forall>(v, ds) \<in> set ucs. u \<noteq> v \<longrightarrow> set cs \<inter> set ds = {}"
    using Cons.prems(3) by fastforce
  have dj0: "\<forall>(v, ds) \<in> set ucs. set cs0 \<inter> set ds = {}"
  proof (clarify)
    fix v ds assume m: "(v, ds) \<in> set ucs"
    then have "v \<noteq> u0" using u0 by force
    then show "set cs0 \<inter> set ds = {}"
      using Cons.prems(3) m by (fastforce simp: p)
  qed
  have none0: "map_of ucs u0 = None"
    using u0 by (simp add: map_of_eq_None_iff)
  show ?case
  proof (cases "cid \<in> set cs0")
    case True
    have un: "\<forall>(v, ds) \<in> set ucs. cid \<notin> set ds \<and> ds \<noteq> []"
      using dj0 ne True by fastforce
    show ?thesis
      using True none0 map_of_untouched[OF un, of u]
      by (auto simp: p)
  next
    case False
    then have r: "removeAll cid cs0 = cs0" by simp
    show ?thesis
      using False ne0 Cons.IH[OF d ne dj]
      by (simp add: p r)
  qed
qed

lemma ids_are_active_map_of:
  "distinct (map fst (user_connections s)) \<Longrightarrow>
   ids_are_active s \<longleftrightarrow>
     (\<forall>u cs. map_of (user_connections s) u = Some cs \<longrightarrow>
        set cs \<subseteq> fst ` set (active_connections s))"
  unfolding ids_are_active_def by (simp add: Ball_def)

lemma sets_nonempty_map_of:
  "distinct (map fst (user_connections s)) \<Longrightarrow>
   sets_nonempty s \<longleftrightarrow> (\<forall>u cs. map_of (user_connections s) u = Some cs \<longrightarrow> cs \<noteq> [])"
  unfolding sets_nonempty_def by (simp add: Ball_def)

lemma single_owner_map_of:
  "distinct (map fst (user_connections s)) \<Longrightarrow>
   single_owner s \<longleftrightarrow>
     (\<forall>u v cs ds. map_of (user_connections s) u = Some cs \<longrightarrow>
         map_of (user_connections s) v = Some ds \<longrightarrow> u \<noteq> v \<longrightarrow> set cs \<inter> set ds = {})"
  unfolding single_owner_def by (simp add: Ball_def) blast

lemma registry_inv_map_of:
  "registry_inv s \<longleftrightarrow>
     distinct (map fst (active_connections s)) \<and> distinct (map fst (user_connections s)) \<and>
     (\<forall>u cs. map_of (user_connections s) u = Some cs \<longrightarrow>
         cs \<noteq> [] \<and> set cs \<subseteq> fst ` set (active_connections s)) \<and>
     (\<forall>u v cs ds. map_of (user_connections s) u = Some cs \<longrightarrow>
         map_of (user_connections s) v = Some ds \<longrightarrow> u \<noteq> v \<longrightarrow> set cs \<inter> set ds = {})"
proof (cases "distinct (map fst (user_connections s))")
  case True
  show ?thesis
    unfolding registry_inv_def ids_are_active_map_of[OF True] sets_nonempty_map_of[OF True]
      single_owner_map_of[OF True]
    by blast
next
  case False
  then show ?thesis by (simp add: registry_inv_def)
qed

lemma keys_delete: "fst ` set (AList.delete k al) = fst ` set al - {k}"
proof -
  have "set (map fst (AList.delete k al)) = set (map fst al) - {k}"
    by (simp add: delete_keys)
  then show ?thesis by simp
qed

lemma registry_inv_users:
  assumes "registry_inv s"
  shows "distinct (map fst (user_connections s))"
    and "\<forall>(u, cs) \<in> set (user_connections s). cs \<noteq> []"
    and "\<forall>(u, cs) \<in> set (user_connections s). \<forall>(v, ds) \<in> set (user_connections s).
           u \<noteq> v \<longrightarrow> set cs \<inter> set ds = {}"
  using assms
  unfolding registry_inv_def ids_are_active_def sets_nonempty_def single_owner_def
  by blast+

lemma disconnect_inv:
  assumes inv: "registry_inv s"
  shows "registry_inv (disconnect s cid)"
proof (cases "map_of (active_connections s) cid")
  case None
  then show ?thesis using inv by (simp add: disconnect_def)
next
  case (Some ws)
  let ?s' = "disconnect s cid"
  have A: "active_connections ?s' = AList.delete cid (active_connections s)"
    and U: "user_connections ?s' = remove_from_users cid (user_connections s)"
    using Some by (simp_all add: disconnect_def)
  note m = map_of_remove_from_users[OF registry_inv_users[OF inv], of cid]
  have R: "distinct (map fst (active_connections s))" "distinct (map fst (user_connections s))"
    "\<And>u cs. map_of (user_connections s) u = Some cs \<Longrightarrow>
         cs \<noteq> [] \<and> set cs \<subseteq> fst ` set (active_connections s)"
    "\<And>u v cs ds. map_of (user_connections s) u = Some cs \<Longrightarrow>
         map_of (user_connections s) v = Some ds \<Longrightarrow> u \<noteq> v \<Longrightarrow> set cs \<inter> set ds = {}"
    using inv unfolding registry_inv_map_of by blast+
  have pre: "\<exists>cs. map_of (user_connections s) u = Some cs \<and> cs' = removeAll cid cs \<and> cs' \<noteq> []"
    if "map_of (user_connections ?s') u = Some cs'" for u cs'
    using that unfolding U m by (auto split: option.splits if_splits)
  show ?thesis
    unfolding registry_inv_map_of
  proof (intro conjI allI impI)
    show "distinct (map fst (active_connections ?s'))"
      unfolding A using R(1) by (rule distinct_delete)
    show "distinct (map fst (user_connections ?s'))"
      unfolding U using R(2) by (rule remove_from_users_distinct)
  next
    fix u cs' assume "map_of (user_connections ?s') u = Some cs'"
    then obtain cs where c: "map_of (user_connections s) u = Some cs" "cs' = removeAll cid cs"
      "cs' \<noteq> []" using pre by blast
    show "cs' \<noteq> []" by (rule c(3))
    show "set cs' \<subseteq> fst ` set (active_connections ?s')"
      unfolding A keys_delete using R(3)[OF c(1)] c(2) by auto
  next
    fix u v cs' ds'
    assume a: "map_of (user_connections ?s') u = Some cs'"
      "map_of (user_connections ?s') v = Some ds'" "u \<noteq> v"
    obtain cs where c: "map_of (user_connections s) u = Some cs" "cs' = removeAll cid cs"
      using pre[OF a(1)] by blast
    obtain ds where d: "map_of (user_connections s) v = Some ds" "ds' = removeAll cid ds"
      using pre[OF a(2)] by blast
    show "set cs' \<inter> set ds' = {}"
      using R(4)[OF c(1) d(1) a(3)] c(2) d(2) by auto
  qed
qed

lemma connect_dicts:
  "case connect s ws uid cid of
     Inl e \<Rightarrow> accept_fails ws
   | Inr (c', s') \<Rightarrow>
       \<not> accept_fails ws \<and> c' = cid \<and>
       active_connections s' = AList.update cid ws (active_connections s) \<and>
       user_connections s' =
         (case uid of
            None \<Rightarrow> user_connections s
          | Some u \<Rightarrow>
              if u = [] then user_connections s
              else AList.update u
                     (List.insert cid
                        (case map_of (user_connections s) u of None \<Rightarrow> [] | Some cs \<Rightarrow> cs))
                     (user_connections s)) \<and>
       sent s' = sent s \<and> closed s' = closed s"
  by (simp add: connect_def Let_def split: option.splits prod.splits)

lemma insert_not_Nil: "List.insert x xs \<noteq> []"
  by (cases "x \<in> set xs") (auto simp: List.insert_def)

lemma connect_inv:
  assumes inv: "registry_inv s"
    and fresh: "cid \<notin> fst ` set (active_connections s)"
    and c: "connect s ws uid cid = Inr (cid', s')"
  shows "registry_inv s'"
proof -
  have R: "distinct (map fst (active_connections s))" "distinct (map fst (user_connections s))"
    "\<And>u cs. map_of (user_connections s) u = Some cs \<Longrightarrow>
         cs \<noteq> [] \<and> set cs \<subseteq> fst ` set (active_connections s)"
    "\<And>u v cs ds. map_of (user_connections s) u = Some cs \<Longrightarrow>
         map_of (user_connections s) v = Some ds \<Longrightarrow> u \<noteq> v \<Longrightarrow> set cs \<inter> set ds = {}"
    using inv unfolding registry_inv_map_of by blast+
  have nowhere: "map_of (user_connections s) u = Some cs \<Longrightarrow> cid \<notin> set cs" for u cs
    using R(3) fresh by blast
  have A: "active_connections s' = AList.update cid ws (active_connections s)"
    and U: "user_connections s' =
         (case uid of
            None \<Rightarrow> user_connections s
          | Some u \<Rightarrow>
              if u = [] then user_connections s
              else AList.update u
                     (List.insert cid
                        (case map_of (user_connections s) u of None \<Rightarrow> [] | Some cs \<Rightarrow> cs))
                     (user_connections s))"
    using connect_dicts[where s = s and ws = ws and uid = uid and cid = cid] c by simp_all
  have keys: "fst ` set (active_connections s') = insert cid (fst ` set (active_connections s))"
    unfolding A by (simp add: dom_update)
  have dA: "distinct (map fst (active_connections s'))"
    unfolding A using R(1) by (rule distinct_update)
  show ?thesis
  proof (cases "\<exists>u. uid = Some u \<and> u \<noteq> []")
    case False
    then have anon: "user_connections s' = user_connections s"
      unfolding U by (cases uid) auto
    show ?thesis
      unfolding registry_inv_map_of anon keys
      using dA R by blast
  next
    case True
    then obtain u where u: "uid = Some u" "u \<noteq> []" by blast
    let ?old = "case map_of (user_connections s) u of None \<Rightarrow> [] | Some cs \<Rightarrow> cs"
    have U': "user_connections s' = AList.update u (List.insert cid ?old) (user_connections s)"
      unfolding U using u by simp
    have mo: "map_of (user_connections s') = (map_of (user_connections s))(u \<mapsto> List.insert cid ?old)"
      unfolding U' by (rule update_conv')
    have oldsub: "set ?old \<subseteq> fst ` set (active_connections s)"
    proof (cases "map_of (user_connections s) u")
      case None then show ?thesis by simp
    next
      case (Some cs) then show ?thesis using R(3)[OF Some] by simp
    qed
    have oldnot: "cid \<notin> set ?old" using oldsub fresh by blast
    have olddisj: "set ?old \<inter> set ds = {}"
      if "map_of (user_connections s) v = Some ds" "v \<noteq> u" for v ds
    proof (cases "map_of (user_connections s) u")
      case None then show ?thesis by simp
    next
      case (Some cs)
      have "set cs \<inter> set ds = {}" using R(4)[OF Some that(1)] that(2) by blast
      then show ?thesis using Some by simp
    qed
    show ?thesis
      unfolding registry_inv_map_of
    proof (intro conjI allI impI)
      show "distinct (map fst (active_connections s'))" by (rule dA)
      show "distinct (map fst (user_connections s'))"
        unfolding U' using R(2) by (rule distinct_update)
    next
      fix v cs assume a: "map_of (user_connections s') v = Some cs"
      show "cs \<noteq> []"
      proof (cases "v = u")
        case True then show ?thesis using a insert_not_Nil[of cid ?old] unfolding mo by auto
      next
        case False then show ?thesis using a R(3)[of v cs] unfolding mo by simp
      qed
      show "set cs \<subseteq> fst ` set (active_connections s')"
      proof (cases "v = u")
        case True
        then have "cs = List.insert cid ?old" using a unfolding mo by simp
        then show ?thesis unfolding keys using oldsub by auto
      next
        case False
        then have "map_of (user_connections s) v = Some cs" using a unfolding mo by simp
        then show ?thesis unfolding keys using R(3) by blast
      qed
    next
      fix v w cs ds
      assume a: "map_of (user_connections s') v = Some cs"
        "map_of (user_connections s') w = Some ds" "v \<noteq> w"
      have one: "set (List.insert cid ?old) \<inter> set ds' = {}"
        if "map_of (user_connections s) x = Some ds'" "x \<noteq> u" for x ds'
        using olddisj[OF that] nowhere[OF that(1)] by auto
      show "set cs \<inter> set ds = {}"
      proof (cases "v = u")
        case True
        then have cs: "cs = List.insert cid ?old" using a(1) unfolding mo by simp
        have w: "w \<noteq> u" using True a(3) by simp
        then have "map_of (user_connections s) w = Some ds" using a(2) unfolding mo by simp
        from one[OF this w] show ?thesis unfolding cs .
      next
        case False
        then have v: "map_of (user_connections s) v = Some cs" using a(1) unfolding mo by simp
        show ?thesis
        proof (cases "w = u")
          case True
          then have ds: "ds = List.insert cid ?old" using a(2) unfolding mo by simp
          from one[OF v False] show ?thesis unfolding ds by blast
        next
          case wf: False
          then have "map_of (user_connections s) w = Some ds" using a(2) unfolding mo by simp
          from R(4)[OF v this a(3)] show ?thesis .
        qed
      qed
    qed
  qed
qed

lemma registry_inv_cong:
  assumes "active_connections s' = active_connections s"
    and "user_connections s' = user_connections s"
  shows "registry_inv s' = registry_inv s"
  using assms
  by (simp add: registry_inv_def ids_are_active_def sets_nonempty_def single_owner_def)

lemma send_to_connection_inv:
  assumes "registry_inv s"
  shows "registry_inv (snd (send_to_connection s cid msg))"
proof (cases "map_of (active_connections s) cid")
  case None
  then show ?thesis using assms by (simp add: send_to_connection_def)
next
  case (Some ws)
  show ?thesis
  proof (cases "send_fails ws")
    case True
    then show ?thesis
      using Some disconnect_inv[OF assms, of cid] by (simp add: send_to_connection_def)
  next
    case False
    have "registry_inv (s\<lparr>sent := sent s @ [(cid, msg)]\<rparr>) = registry_inv s"
      by (rule registry_inv_cong) simp_all
    then show ?thesis
      using Some False assms by (simp add: send_to_connection_def)
  qed
qed

lemma send_to_user_loop_inv:
  "registry_inv s \<Longrightarrow> registry_inv (snd (send_to_user_loop cids msg n s))"
proof (induction cids arbitrary: n s)
  case Nil
  then show ?case by simp
next
  case (Cons cid cids)
  obtain ok s1 where r: "send_to_connection s cid msg = (ok, s1)"
    by (cases "send_to_connection s cid msg")
  have "registry_inv s1"
    using send_to_connection_inv[OF Cons.prems, of cid msg] r by simp
  from Cons.IH[OF this] show ?case by (simp add: r)
qed

lemma send_to_user_inv:
  "registry_inv s \<Longrightarrow> registry_inv (snd (send_to_user s uid msg))"
  by (cases "map_of (user_connections s) uid")
     (simp_all add: send_to_user_def send_to_user_loop_inv)

lemma broadcast_loop_inv:
  "registry_inv s \<Longrightarrow> registry_inv (snd (broadcast_loop cids msg ex n s))"
proof (induction cids arbitrary: n s)
  case Nil
  then show ?case by simp
next
  case (Cons cid cids)
  obtain ok s1 where r: "send_to_connection s cid msg = (ok, s1)"
    by (cases "send_to_connection s cid msg")
  have s1: "registry_inv s1"
    using send_to_connection_inv[OF Cons.prems, of cid msg] r by simp
  show ?case
    using Cons.IH[OF Cons.prems] Cons.IH[OF s1]
    by (simp add: r)
qed

lemma broadcast_inv:
  "registry_inv s \<Longrightarrow> registry_inv (snd (broadcast s msg ex))"
  by (simp add: broadcast_def broadcast_loop_inv)

lemma foldl_disconnect_inv:
  "registry_inv s \<Longrightarrow> registry_inv (foldl disconnect s cids)"
  by (induction cids arbitrary: s) (simp_all add: disconnect_inv)

lemma cleanup_inv:
  assumes "registry_inv s"
  shows "registry_inv (cleanup s)"
proof -
  let ?s1 = "foldl disconnect s (map fst (active_connections s))"
  have s1: "registry_inv ?s1" using assms by (rule foldl_disconnect_inv)
  have "registry_inv (?s1\<lparr>tasks := ts\<rparr>) = registry_inv ?s1" for ts
    by (rule registry_inv_cong) simp_all
  then show ?thesis
    using s1 by (simp add: cleanup_def Let_def split: option.splits)
qed

lemma init_inv: "registry_inv (WebSocketServer_init rm)"
  by (simp add: WebSocketServer_init_def registry_inv_def ids_are_active_def sets_nonempty_def
      single_owner_def)

subsection \<open>The registry's invariant\<close>

text \<open>
  C10. The registry starts consistent, and every call keeps it consistent:
  \<open>connect\<close> (with an id that \<open>uuid4\<close> has not given out before), \<open>disconnect\<close>,
  \<open>send_to_connection\<close> with its disconnect after a failed send, \<open>send_to_user\<close>,
  \<open>broadcast\<close> and \<open>cleanup\<close>. Consistent means: every id in a user's set is a key
  of \<open>active_connections\<close>, no user's set is empty, and no id is in the sets of two
  users.
\<close>

theorem registry_inv_maintained:
  assumes inv: "registry_inv s"
    and fresh: "uuid_fresh call s"
  shows "registry_inv (WebSocketServer_init rm) \<and>
         registry_inv (perform call s) \<and>
         ids_are_active (perform call s) \<and> sets_nonempty (perform call s) \<and>
         single_owner (perform call s)"
proof -
  have p: "registry_inv (perform call s)"
  proof (cases call)
    case (Connect ws uid cid)
    show ?thesis
    proof (cases "connect s ws uid cid")
      case (Inl e)
      then show ?thesis using inv Connect by simp
    next
      case (Inr r)
      obtain cid' s' where r: "r = (cid', s')" by (cases r)
      have "registry_inv s'"
        using connect_inv[OF inv _ Inr[unfolded r]] fresh Connect by simp
      then show ?thesis using Connect Inr r by simp
    qed
  next
    case (Disconnect cid)
    then show ?thesis using disconnect_inv[OF inv] by simp
  next
    case (SendToConnection cid msg)
    then show ?thesis using send_to_connection_inv[OF inv] by simp
  next
    case (SendToUser uid msg)
    then show ?thesis using send_to_user_inv[OF inv] by simp
  next
    case (Broadcast msg ex)
    then show ?thesis using broadcast_inv[OF inv] by simp
  next
    case Cleanup
    then show ?thesis using cleanup_inv[OF inv] by simp
  qed
  then show ?thesis using init_inv by (simp add: registry_inv_def)
qed

lemma owner_of_Some_mem:
  "owner_of c ucs = Some u \<Longrightarrow> \<exists>cs. (u, cs) \<in> set ucs \<and> c \<in> set cs"
  by (induction ucs) (auto split: if_splits)

lemma owner_of_None_iff:
  "owner_of c ucs = None \<longleftrightarrow> (\<forall>(u, cs) \<in> set ucs. c \<notin> set cs)"
  by (induction ucs) (auto split: if_splits)

lemma removeAll_Nil_iff: "removeAll x xs = [] \<longleftrightarrow> set xs \<subseteq> {x}"
  by (induction xs) auto

lemma owner_of_iff:
  assumes d: "distinct (map fst ucs)"
    and dj: "\<forall>(u, cs) \<in> set ucs. \<forall>(v, ds) \<in> set ucs. u \<noteq> v \<longrightarrow> set cs \<inter> set ds = {}"
  shows "owner_of c ucs = Some u \<longleftrightarrow> (\<exists>cs. map_of ucs u = Some cs \<and> c \<in> set cs)"
proof
  assume "owner_of c ucs = Some u"
  then obtain cs where "(u, cs) \<in> set ucs" "c \<in> set cs"
    using owner_of_Some_mem by blast
  then show "\<exists>cs. map_of ucs u = Some cs \<and> c \<in> set cs" using d by auto
next
  assume "\<exists>cs. map_of ucs u = Some cs \<and> c \<in> set cs"
  then obtain cs where m: "(u, cs) \<in> set ucs" and c: "c \<in> set cs"
    by (auto dest: map_of_SomeD)
  have "owner_of c ucs \<noteq> None"
    using m c by (auto simp: owner_of_None_iff)
  then obtain v where v: "owner_of c ucs = Some v" by auto
  then obtain ds where n: "(v, ds) \<in> set ucs" and c': "c \<in> set ds"
    using owner_of_Some_mem by blast
  have "v = u"
  proof (rule ccontr)
    assume "v \<noteq> u"
    then have "set cs \<inter> set ds = {}" using dj m n by fastforce
    then show False using c c' by blast
  qed
  then show "owner_of c ucs = Some u" using v by simp
qed

lemma owner_of_after_disconnect:
  assumes inv: "registry_inv s" and ne: "c \<noteq> cid"
  shows "owner_of c (user_connections (disconnect s cid)) = owner_of c (user_connections s)"
proof (cases "map_of (active_connections s) cid")
  case None
  then show ?thesis by (simp add: disconnect_def)
next
  case (Some ws)
  have U: "user_connections (disconnect s cid) = remove_from_users cid (user_connections s)"
    using Some by (simp add: disconnect_def)
  note m = map_of_remove_from_users[OF registry_inv_users[OF inv], of cid]
  note o = owner_of_iff[OF registry_inv_users(1,3)[OF inv]]
  note o' = owner_of_iff[OF registry_inv_users(1,3)[OF disconnect_inv[OF inv, of cid]]]
  have "(owner_of c (user_connections (disconnect s cid)) = Some u) =
        (owner_of c (user_connections s) = Some u)" for u
    unfolding o o' unfolding U m using ne
    by (auto simp: removeAll_Nil_iff split: option.splits if_splits)
  then show ?thesis
    by (metis option.exhaust)
qed

lemma send_to_connection_sent:
  "sent (snd (send_to_connection s cid msg)) =
     sent s @ (if fst (send_to_connection s cid msg) then [(cid, msg)] else [])"
  by (simp add: send_to_connection_def disconnect_def split: option.splits)

lemma send_to_connection_users:
  "user_connections (snd (send_to_connection s cid msg)) = user_connections s \<or>
   snd (send_to_connection s cid msg) = disconnect s cid"
  by (simp add: send_to_connection_def split: option.splits)

lemma broadcast_loop_sent:
  assumes "registry_inv s" and "ex \<noteq> []" and "distinct cids"
  shows "\<exists>new.
     sent (snd (broadcast_loop cids msg (Some ex) n s)) = sent s @ new \<and>
     fst (broadcast_loop cids msg (Some ex) n s) = n + int (length new) \<and>
     (\<forall>(cid, m) \<in> set new.
        cid \<in> set cids \<and> m = msg \<and> owner_of cid (user_connections s) \<noteq> Some ex)"
  using assms
proof (induction cids arbitrary: n s)
  case Nil
  then show ?case by simp
next
  case (Cons cid cids)
  have d: "distinct cids" and nin: "cid \<notin> set cids" using Cons.prems(3) by auto
  show ?case
  proof (cases "owner_of cid (user_connections s) = Some ex")
    case True
    obtain new where
      "sent (snd (broadcast_loop cids msg (Some ex) n s)) = sent s @ new"
      "fst (broadcast_loop cids msg (Some ex) n s) = n + int (length new)"
      "\<forall>(c, m) \<in> set new. c \<in> set cids \<and> m = msg \<and> owner_of c (user_connections s) \<noteq> Some ex"
      using Cons.IH[OF Cons.prems(1,2) d, of n] by blast
    then show ?thesis
      using True Cons.prems(2) by (intro exI[of _ new]) auto
  next
    case False
    obtain ok s1 where r: "send_to_connection s cid msg = (ok, s1)"
      by (cases "send_to_connection s cid msg")
    have inv1: "registry_inv s1"
      using send_to_connection_inv[OF Cons.prems(1), of cid msg] r by simp
    have sent1: "sent s1 = sent s @ (if ok then [(cid, msg)] else [])"
      using send_to_connection_sent[of s cid msg] r by simp
    have own: "owner_of c (user_connections s1) = owner_of c (user_connections s)"
      if "c \<in> set cids" for c
    proof -
      have "c \<noteq> cid" using that nin by blast
      then show ?thesis
        using send_to_connection_users[of s cid msg] r
          owner_of_after_disconnect[OF Cons.prems(1), of c cid]
        by auto
    qed
    let ?n1 = "if ok then n + 1 else n"
    obtain new where new:
      "sent (snd (broadcast_loop cids msg (Some ex) ?n1 s1)) = sent s1 @ new"
      "fst (broadcast_loop cids msg (Some ex) ?n1 s1) = ?n1 + int (length new)"
      "\<forall>(c, m) \<in> set new. c \<in> set cids \<and> m = msg \<and> owner_of c (user_connections s1) \<noteq> Some ex"
      using Cons.IH[OF inv1 Cons.prems(2) d, of ?n1] by blast
    have step: "broadcast_loop (cid # cids) msg (Some ex) n s =
        broadcast_loop cids msg (Some ex) ?n1 s1"
      using False r by simp
    let ?all = "(if ok then [(cid, msg)] else []) @ new"
    have "sent (snd (broadcast_loop (cid # cids) msg (Some ex) n s)) = sent s @ ?all"
      unfolding step new(1) sent1 by simp
    moreover have "fst (broadcast_loop (cid # cids) msg (Some ex) n s) = n + int (length ?all)"
      unfolding step new(2) by simp
    moreover have "\<forall>(c, m) \<in> set ?all.
        c \<in> set (cid # cids) \<and> m = msg \<and> owner_of c (user_connections s) \<noteq> Some ex"
      using new(3) own False by auto
    ultimately show ?thesis by blast
  qed
qed

lemma broadcast_loop_all_excluded:
  assumes "ex \<noteq> []" and "\<forall>cid \<in> set cids. owner_of cid (user_connections s) = Some ex"
  shows "broadcast_loop cids msg (Some ex) n s = (n, s)"
  using assms by (induction cids) simp_all

subsection \<open>Sending to a user and broadcasting\<close>

text \<open>
  C9. In a consistent registry: \<open>send_to_user\<close> for a user without connections
  returns 0 and changes nothing. \<open>broadcast\<close> with an \<open>exclude_user\<close> sends to no
  connection of that user's set, and its result is the number of messages it sent.
  When every connection present belongs to that user, it returns 0 and changes
  nothing.
\<close>

theorem send_to_user_and_broadcast_exclusion:
  assumes inv: "registry_inv s"
  shows "(map_of (user_connections s) user_id = None \<longrightarrow>
            send_to_user s user_id message = (0, s)) \<and>
         (exclude_user \<noteq> [] \<longrightarrow>
            (\<exists>new.
               sent (snd (broadcast s message (Some exclude_user))) = sent s @ new \<and>
               fst (broadcast s message (Some exclude_user)) = int (length new) \<and>
               (\<forall>(cid, m) \<in> set new.
                  \<forall>cs. map_of (user_connections s) exclude_user = Some cs \<longrightarrow> cid \<notin> set cs))) \<and>
         (exclude_user \<noteq> [] \<longrightarrow>
            (\<forall>cid \<in> fst ` set (active_connections s).
               \<exists>cs. map_of (user_connections s) exclude_user = Some cs \<and> cid \<in> set cs) \<longrightarrow>
            broadcast s message (Some exclude_user) = (0, s))"
proof -
  note o = owner_of_iff[OF registry_inv_users(1,3)[OF inv]]
  have dA: "distinct (map fst (active_connections s))"
    using inv by (simp add: registry_inv_def)
  have a: "map_of (user_connections s) user_id = None \<longrightarrow>
            send_to_user s user_id message = (0, s)"
    by (simp add: send_to_user_def)
  have b: "\<exists>new.
       sent (snd (broadcast s message (Some exclude_user))) = sent s @ new \<and>
       fst (broadcast s message (Some exclude_user)) = int (length new) \<and>
       (\<forall>(cid, m) \<in> set new.
          \<forall>cs. map_of (user_connections s) exclude_user = Some cs \<longrightarrow> cid \<notin> set cs)"
    if ne: "exclude_user \<noteq> []"
  proof -
    obtain new where new:
      "sent (snd (broadcast s message (Some exclude_user))) = sent s @ new"
      "fst (broadcast s message (Some exclude_user)) = 0 + int (length new)"
      "\<forall>(cid, m) \<in> set new. cid \<in> set (map fst (active_connections s)) \<and> m = message \<and>
          owner_of cid (user_connections s) \<noteq> Some exclude_user"
      unfolding broadcast_def
      using broadcast_loop_sent[OF inv ne dA, of message 0] by blast
    have "\<forall>(cid, m) \<in> set new.
          \<forall>cs. map_of (user_connections s) exclude_user = Some cs \<longrightarrow> cid \<notin> set cs"
      using new(3) unfolding o by blast
    then show ?thesis using new(1,2) by auto
  qed
  have c: "broadcast s message (Some exclude_user) = (0, s)"
    if ne: "exclude_user \<noteq> []"
      and all: "\<forall>cid \<in> fst ` set (active_connections s).
               \<exists>cs. map_of (user_connections s) exclude_user = Some cs \<and> cid \<in> set cs"
  proof -
    have "\<forall>cid \<in> set (map fst (active_connections s)).
        owner_of cid (user_connections s) = Some exclude_user"
      using all unfolding o by simp
    from broadcast_loop_all_excluded[OF ne this] show ?thesis
      by (simp add: broadcast_def)
  qed
  show ?thesis using a b c by blast
qed

subsection \<open>Disconnecting\<close>

text \<open>
  C8. \<open>disconnect\<close> of an id that is not a key of \<open>active_connections\<close> changes
  nothing, so a second \<open>disconnect\<close> of the same id changes nothing more. In a
  consistent registry, \<open>disconnect\<close> of a present id removes it from
  \<open>active_connections\<close> and from the set of its user; the user's entry goes when
  the set is left empty, every other entry stays as it was, and afterwards the id is
  in no user's set.
\<close>

theorem disconnect_idempotent:
  shows "(map_of (active_connections s) connection_id = None \<longrightarrow>
            disconnect s connection_id = s) \<and>
         disconnect (disconnect s connection_id) connection_id = disconnect s connection_id \<and>
         (registry_inv s \<longrightarrow> map_of (active_connections s) connection_id \<noteq> None \<longrightarrow>
            map_of (active_connections (disconnect s connection_id)) =
              (map_of (active_connections s))(connection_id := None) \<and>
            (\<forall>u. map_of (user_connections (disconnect s connection_id)) u =
                   (case map_of (user_connections s) u of
                      None \<Rightarrow> None
                    | Some cs \<Rightarrow>
                        if removeAll connection_id cs = [] then None
                        else Some (removeAll connection_id cs))) \<and>
            (\<forall>(u, cs) \<in> set (user_connections (disconnect s connection_id)).
               connection_id \<notin> set cs))"
proof -
  have a: "map_of (active_connections s) connection_id = None \<longrightarrow>
            disconnect s connection_id = s"
    by (simp add: disconnect_def)
  have gone: "map_of (active_connections (disconnect s connection_id)) connection_id = None"
    by (simp add: disconnect_def delete_conv' split: option.splits)
  have b: "disconnect (disconnect s connection_id) connection_id = disconnect s connection_id"
    using gone by (simp add: disconnect_def[of "disconnect s connection_id"])
  have c: "map_of (active_connections (disconnect s connection_id)) =
              (map_of (active_connections s))(connection_id := None) \<and>
            (\<forall>u. map_of (user_connections (disconnect s connection_id)) u =
                   (case map_of (user_connections s) u of
                      None \<Rightarrow> None
                    | Some cs \<Rightarrow>
                        if removeAll connection_id cs = [] then None
                        else Some (removeAll connection_id cs))) \<and>
            (\<forall>(u, cs) \<in> set (user_connections (disconnect s connection_id)).
               connection_id \<notin> set cs)"
    if inv: "registry_inv s" and pres: "map_of (active_connections s) connection_id \<noteq> None"
  proof -
    have A: "active_connections (disconnect s connection_id) =
        AList.delete connection_id (active_connections s)"
      and U: "user_connections (disconnect s connection_id) =
        remove_from_users connection_id (user_connections s)"
      using pres by (auto simp: disconnect_def)
    note m = map_of_remove_from_users[OF registry_inv_users[OF inv], of connection_id]
    have d': "distinct (map fst (user_connections (disconnect s connection_id)))"
      using disconnect_inv[OF inv, of connection_id] by (simp add: registry_inv_def)
    have "connection_id \<notin> set cs"
      if "(u, cs) \<in> set (user_connections (disconnect s connection_id))" for u cs
    proof -
      have "map_of (user_connections (disconnect s connection_id)) u = Some cs"
        using that d' by simp
      then show ?thesis unfolding U m by (auto split: option.splits if_splits)
    qed
    then show ?thesis
      unfolding A unfolding U using m by (auto simp: delete_conv')
  qed
  show ?thesis using a b c by blast
qed

lemma alice_two_dicts:
  "active_connections alice_two = [(''c1'', good_socket), (''c2'', good_socket)]"
  "user_connections alice_two = [(''alice'', [''c2'', ''c1''])]"
  "sent alice_two = []"
  by (simp_all add: alice_two_def WebSocketServer_init_def connect_def good_socket_def Let_def)

lemma alice_two_inv: "registry_inv alice_two"
  by (simp add: registry_inv_def ids_are_active_def sets_nonempty_def single_owner_def
      alice_two_dicts)

theorem disconnect_idempotent_witness:
  "disconnect alice_two ''zz'' = alice_two \<and>
   disconnect (disconnect alice_two ''c1'') ''c1'' = disconnect alice_two ''c1'' \<and>
   map_of (active_connections (disconnect alice_two ''c1'')) ''c1'' = None \<and>
   map_of (user_connections (disconnect alice_two ''c1'')) ''alice'' = Some [''c2''] \<and>
   map_of (user_connections (disconnect (disconnect alice_two ''c1'') ''c2'')) ''alice'' = None"
proof -
  have i1: "registry_inv (disconnect alice_two ''c1'')"
    using alice_two_inv by (rule disconnect_inv)
  have p1: "map_of (active_connections alice_two) ''c1'' \<noteq> None"
    "map_of (active_connections alice_two) ''zz'' = None"
    by (simp_all add: alice_two_dicts)
  have u: "map_of (user_connections alice_two) ''alice'' = Some [''c2'', ''c1'']"
    by (simp add: alice_two_dicts)
  have p2: "map_of (active_connections (disconnect alice_two ''c1'')) ''c2'' \<noteq> None"
    using p1(1) by (simp add: disconnect_def alice_two_dicts)
  show ?thesis
    using disconnect_idempotent[of alice_two "''zz''"]
      disconnect_idempotent[of alice_two "''c1''"]
      disconnect_idempotent[of "disconnect alice_two ''c1''" "''c2''"]
      alice_two_inv i1 p1 p2 u
    by simp
qed

theorem send_to_user_and_broadcast_exclusion_witness:
  "send_to_user alice_two ''bob'' (JObj [(''type'', JStr ''hello'')]) = (0, alice_two) \<and>
   broadcast alice_two (JObj [(''type'', JStr ''hello'')]) (Some ''alice'') = (0, alice_two)"
proof -
  have b: "map_of (user_connections alice_two) ''bob'' = None"
    by (simp add: alice_two_dicts)
  have a: "\<forall>cid \<in> fst ` set (active_connections alice_two).
             \<exists>cs. map_of (user_connections alice_two) ''alice'' = Some cs \<and> cid \<in> set cs"
    by (simp add: alice_two_dicts)
  have ne: "''alice'' \<noteq> []" by simp
  show ?thesis
    using send_to_user_and_broadcast_exclusion[OF alice_two_inv, where user_id = "''bob''"
        and exclude_user = "''alice''" and message = "JObj [(''type'', JStr ''hello'')]"] a b ne
    by blast
qed

theorem registry_inv_maintained_witness:
  "registry_inv
     (perform (SendToConnection ''c1'' JNull)
        (perform (Connect broken_socket (Some ''alice'') ''c1'') (WebSocketServer_init None))) \<and>
   user_connections
     (perform (SendToConnection ''c1'' JNull)
        (perform (Connect broken_socket (Some ''alice'') ''c1'') (WebSocketServer_init None))) = [] \<and>
   registry_inv (perform Cleanup alice_two)"
proof -
  let ?s0 = "WebSocketServer_init None"
  let ?s1 = "perform (Connect broken_socket (Some ''alice'') ''c1'') ?s0"
  have i0: "registry_inv ?s0"
    by (simp add: WebSocketServer_init_def registry_inv_def ids_are_active_def sets_nonempty_def
        single_owner_def)
  have f0: "uuid_fresh (Connect broken_socket (Some ''alice'') ''c1'') ?s0"
    by (simp add: WebSocketServer_init_def)
  have i1: "registry_inv ?s1"
    using registry_inv_maintained[OF i0 f0, where rm = None] by blast
  have f1: "uuid_fresh (SendToConnection ''c1'' JNull) ?s1"
    by simp
  have i2: "registry_inv (perform (SendToConnection ''c1'' JNull) ?s1)"
    using registry_inv_maintained[OF i1 f1, where rm = None] by blast
  have f2: "uuid_fresh Cleanup alice_two"
    by simp
  have i3: "registry_inv (perform Cleanup alice_two)"
    using registry_inv_maintained[OF alice_two_inv f2, where rm = None] by blast
  have e: "user_connections (perform (SendToConnection ''c1'' JNull) ?s1) = []"
    by (simp add: WebSocketServer_init_def connect_def broken_socket_def Let_def
        send_to_connection_def disconnect_def)
  show ?thesis using i2 i3 e by blast
qed

subsection \<open>Listener tasks\<close>

text \<open>
  C3 does not hold of the code. Every \<open>connect\<close> on a server with a store manager
  creates a listener task and stores it in \<open>pubsub_task\<close>, over the one that was
  there. After two connects there are two tasks and two subscriptions to
  \<open>websocket_broadcast\<close>; \<open>cleanup\<close> cancels the second and leaves the first
  listening.
\<close>

theorem listener_left_running:
  "tasks (run_calls [Connect good_socket (Some ''alice'') ''c1'',
                     Connect good_socket (Some ''alice'') ''c2'',
                     Cleanup]
            (WebSocketServer_init (Some connected_manager)))
     = [Listening, Cancelled] \<and>
   active_connections
     (run_calls [Connect good_socket (Some ''alice'') ''c1'',
                 Connect good_socket (Some ''alice'') ''c2'',
                 Cleanup]
        (WebSocketServer_init (Some connected_manager))) = [] \<and>
   (case ws_redis
           (run_calls [Connect good_socket (Some ''alice'') ''c1'',
                       Connect good_socket (Some ''alice'') ''c2'']
              (WebSocketServer_init (Some connected_manager))) of
      None \<Rightarrow> False
    | Some rm \<Rightarrow>
        (case client rm of
           None \<Rightarrow> False
         | Some c \<Rightarrow> subscribers c ''websocket_broadcast'' = 2))"
  by (simp add: WebSocketServer_init_def connected_manager_def empty_store_def connect_def
      good_socket_def listen_pubsub_def RedisManager_subscribe_def client_subscribe_def
      cleanup_def disconnect_def Let_def)

end
